theory Spec2Isabelle
  imports Complex_Main
begin

section \<open>Strings of the host language\<close>

text \<open>
  A JavaScript string is a sequence of UTF-16 code units. The embedding keeps that view:
  a string is a list of code units, each an integer from 0 to 65535. The literal helper \<open>str\<close>
  turns an ASCII literal into its code units; other characters are written by number
  (\<open>224\<close> is U+00E0, \<open>8212\<close> is the em dash U+2014, \<open>768\<close> the combining grave U+0300).
\<close>

type_synonym jsstring = "int list"

definition str :: "string \<Rightarrow> jsstring" where
  "str s = map of_char s"

text \<open>\<open>\d\<close>, \<open>\s\<close> (WhiteSpace and LineTerminator of ECMAScript) and \<open>\w\<close>.\<close>

definition isDigit :: "int \<Rightarrow> bool" where
  "isDigit c = (48 \<le> c \<and> c \<le> 57)"

definition isSpace :: "int \<Rightarrow> bool" where
  "isSpace c = (c = 9 \<or> c = 10 \<or> c = 11 \<or> c = 12 \<or> c = 13 \<or> c = 32 \<or> c = 160
     \<or> c = 5760 \<or> (8192 \<le> c \<and> c \<le> 8202) \<or> c = 8232 \<or> c = 8233 \<or> c = 8239
     \<or> c = 8287 \<or> c = 12288 \<or> c = 65279)"

definition isWordChar :: "int \<Rightarrow> bool" where
  "isWordChar c = ((97 \<le> c \<and> c \<le> 122) \<or> (65 \<le> c \<and> c \<le> 90) \<or> isDigit c \<or> c = 95)"

text \<open>
  \<open>String.prototype.toLowerCase\<close>, code unit by code unit, on Basic Latin and the Latin-1
  Supplement (A-Z, and U+00C0..U+00DE without the multiplication sign U+00D7). Code units
  from U+0100 on are left as they are: the embedding is exact for the characters of those
  two blocks and for every other character that has no case mapping. A letter beyond
  U+00FF that has a lower-case form (in Latin Extended, Greek, Cyrillic and so on) is
  outside it: where a result depends on the lower-case form of such text, the theorems
  below are stated for covered text.
\<close>

definition lowerUnit :: "int \<Rightarrow> int" where
  "lowerUnit c = (if (65 \<le> c \<and> c \<le> 90) \<or> (192 \<le> c \<and> c \<le> 222 \<and> c \<noteq> 215) then c + 32 else c)"

definition toLowerCase :: "jsstring \<Rightarrow> jsstring" where
  "toLowerCase s = map lowerUnit s"

text \<open>
  The code units on which this embedding of \<open>toLowerCase\<close> (and, further down, of
  \<open>normalize\<close>) is exact: Basic Latin, the Latin-1 Supplement, and U+2010..U+20CF (the
  dashes, quotation marks and other general punctuation, the superscripts and the
  currency signs), none of which has a case mapping or a canonical decomposition apart
  from the Latin-1 letters listed here and in \<open>nfdTable\<close>.
\<close>

definition covered :: "int \<Rightarrow> bool" where
  "covered c = ((0 \<le> c \<and> c < 256) \<or> (8208 \<le> c \<and> c \<le> 8399))"

text \<open>\<open>String.prototype.trim\<close>: white space and line terminators go from both ends.\<close>

definition trimStart :: "jsstring \<Rightarrow> jsstring" where
  "trimStart s = dropWhile isSpace s"

definition trimEnd :: "jsstring \<Rightarrow> jsstring" where
  "trimEnd s = rev (dropWhile isSpace (rev s))"

definition trim :: "jsstring \<Rightarrow> jsstring" where
  "trim s = trimEnd (trimStart s)"

text \<open>\<open>s.substring(a, b)\<close> for \<open>a \<le> b\<close>, and \<open>s.substring(a)\<close>.\<close>

definition slice :: "jsstring \<Rightarrow> nat \<Rightarrow> nat \<Rightarrow> jsstring" where
  "slice s a b = take (b - a) (drop a s)"

section \<open>Regular expressions\<close>

text \<open>
  The source's regular expressions are kept as terms and run by one backtracking
  matcher. A match state is the current index and the captures closed so far (start and
  end index, in the order the groups close). \<open>ms r s st\<close> lists every way \<open>r\<close> can match
  from state \<open>st\<close>, in the order the backtracking matcher of ECMAScript tries them: the
  head of the list is the match the engine reports. A greedy star tries one more
  iteration before it tries to stop, and an iteration that consumes nothing is
  rejected, as in ECMAScript's RepeatMatcher.
\<close>

datatype regex =
    Cls "int \<Rightarrow> bool"
  | Seq regex regex
  | Alt regex regex
  | Star regex
  | Group regex
  | Empty
  | WordB
  | Bol
  | Eol

type_synonym captures = "(nat \<times> nat) list"
type_synonym mstate = "nat \<times> captures"

definition isWordAt :: "jsstring \<Rightarrow> int \<Rightarrow> bool" where
  "isWordAt s k = (0 \<le> k \<and> nat k < length s \<and> isWordChar (s ! nat k))"

function ms :: "regex \<Rightarrow> jsstring \<Rightarrow> mstate \<Rightarrow> mstate list" where
  "ms (Cls P) s st = (if fst st < length s \<and> P (s ! fst st) then [(Suc (fst st), snd st)] else [])"
| "ms (Seq r1 r2) s st = concat (map (ms r2 s) (ms r1 s st))"
| "ms (Alt r1 r2) s st = ms r1 s st @ ms r2 s st"
| "ms (Star r) s st =
     concat (map (\<lambda>st'. if fst st < fst st' \<and> fst st' \<le> length s then ms (Star r) s st' else [])
                 (ms r s st)) @ [st]"
| "ms (Group r) s st = map (\<lambda>st'. (fst st', snd st' @ [(fst st, fst st')])) (ms r s st)"
| "ms Empty s st = [st]"
| "ms WordB s st = (if isWordAt s (int (fst st) - 1) \<noteq> isWordAt s (int (fst st)) then [st] else [])"
| "ms Bol s st = (if fst st = 0 then [st] else [])"
| "ms Eol s st = (if fst st = length s then [st] else [])"
  by pat_completeness auto
termination
  by (relation "measures [\<lambda>(r, s, st). size r, \<lambda>(r, s, st). length s - fst st]") auto

text \<open>
  The star's equation calls itself under a \<open>\<lambda>\<close>, so it is unfolded by hand
  (\<open>ms_Star\<close>) and kept out of the simplifier.
\<close>

lemmas ms_Star = ms.simps(4)
declare ms.simps(4) [simp del]

text \<open>\<open>r+\<close>, \<open>r{1,2}\<close> and \<open>r{4}\<close>, all greedy.\<close>

definition Plus :: "regex \<Rightarrow> regex" where
  "Plus r = Seq r (Star r)"

definition Rep12 :: "regex \<Rightarrow> regex" where
  "Rep12 r = Seq r (Alt r Empty)"

definition Rep4 :: "regex \<Rightarrow> regex" where
  "Rep4 r = Seq r (Seq r (Seq r r))"

text \<open>
  A match is its start index, its end index and its captures. \<open>matchAt\<close> is one attempt
  at a fixed index; \<open>search\<close> is \<open>RegExp.prototype.exec\<close> of a regular expression that is
  not sticky, from \<open>lastIndex = i\<close>: the leftmost index with a match.
\<close>

type_synonym rmatch = "nat \<times> nat \<times> captures"

definition matchAt :: "regex \<Rightarrow> jsstring \<Rightarrow> nat \<Rightarrow> rmatch option" where
  "matchAt r s i = (case ms r s (i, []) of [] \<Rightarrow> None | st # _ \<Rightarrow> Some (i, fst st, snd st))"

function search :: "regex \<Rightarrow> jsstring \<Rightarrow> nat \<Rightarrow> rmatch option" where
  "search r s i =
     (if length s < i then None
      else case matchAt r s i of None \<Rightarrow> search r s (Suc i) | Some m \<Rightarrow> Some m)"
  by pat_completeness auto
termination
  by (relation "measure (\<lambda>(r, s, i). Suc (length s) - i)") auto

declare search.simps [simp del]

text \<open>A match never moves backwards and never leaves the string.\<close>

lemma ms_bounds:
  "st' \<in> set (ms r s st) \<Longrightarrow>
     fst st \<le> fst st' \<and> (fst st \<le> length s \<longrightarrow> fst st' \<le> length s)"
proof (induction r s st arbitrary: st' rule: ms.induct)
  case (2 r1 r2 s st)
  from "2.prems" obtain x where x: "x \<in> set (ms r1 s st)" and y: "st' \<in> set (ms r2 s x)"
    by auto
  from "2.IH"(1)[OF x] "2.IH"(2)[OF x y] show ?case by auto
next
  case (4 r s st)
  from "4.prems" consider "st' = st"
    | x where "x \<in> set (ms r s st)" "fst st < fst x" "fst x \<le> length s"
        "st' \<in> set (ms (Star r) s x)"
    by (subst (asm) ms_Star) (auto split: if_splits)
  then show ?case
  proof cases
    case 1
    then show ?thesis by simp
  next
    case 2
    from "4.IH"(2)[OF 2(1) _ 2(4)] 2(2,3) show ?thesis by auto
  qed
qed (auto split: if_splits)

lemma matchAt_bounds:
  assumes "matchAt r s i = Some (b, e, c)"
  shows "b = i \<and> i \<le> e \<and> (i \<le> length s \<longrightarrow> e \<le> length s)"
proof -
  from assms obtain st rest where m: "ms r s (i, []) = st # rest" and be: "b = i" "e = fst st"
    by (auto simp: matchAt_def split: list.splits)
  from m have "st \<in> set (ms r s (i, []))" by simp
  from ms_bounds[OF this] be show ?thesis by simp
qed

lemma search_bounds:
  "search r s i = Some (b, e, c) \<Longrightarrow> i \<le> b \<and> b \<le> e \<and> e \<le> length s"
proof (induction r s i rule: search.induct)
  case (1 r s i)
  show ?case
  proof (cases "matchAt r s i")
    case None
    with "1.prems" have le: "\<not> length s < i" and nxt: "search r s (Suc i) = Some (b, e, c)"
      by (auto simp: search.simps[of r s i] split: if_splits)
    from "1.IH"[OF le None nxt] show ?thesis by simp
  next
    case (Some m)
    with "1.prems" have le: "\<not> length s < i" and "matchAt r s i = Some (b, e, c)"
      by (auto simp: search.simps[of r s i] split: if_splits)
    from matchAt_bounds[OF this(2)] le show ?thesis by simp
  qed
qed

text \<open>
  \<open>String.prototype.matchAll\<close> with a global regular expression: every match from
  \<open>lastIndex\<close> on, each search starting where the previous match ended (one further
  when that match was empty).
\<close>

function matchAllFrom :: "regex \<Rightarrow> jsstring \<Rightarrow> nat \<Rightarrow> rmatch list" where
  "matchAllFrom r s i =
     (case search r s i of
        None \<Rightarrow> []
      | Some (b, e, c) \<Rightarrow> (b, e, c) # matchAllFrom r s (if e = b then Suc e else e))"
  by pat_completeness auto
termination
proof (relation "measure (\<lambda>(r, s, i). Suc (length s) - i)")
  show "wf (measure (\<lambda>(r, s, i). Suc (length s) - i))" by simp
next
  fix r s i m b y e c
  assume "search r s i = Some m" and "(b, y) = m" and "(e, c) = y"
  then have "search r s i = Some (b, e, c)" by simp
  from search_bounds[OF this]
  show "((r, s, if e = b then Suc e else e), r, s, i) \<in> measure (\<lambda>(r, s, i). Suc (length s) - i)"
    by auto
qed

declare matchAllFrom.simps [simp del]

definition matchAll :: "regex \<Rightarrow> jsstring \<Rightarrow> rmatch list" where
  "matchAll r s = matchAllFrom r s 0"

text \<open>The text of a whole match and of its \<open>k\<close>-th group (\<open>m[0]\<close>, \<open>m[k]\<close>).\<close>

definition matched :: "jsstring \<Rightarrow> rmatch \<Rightarrow> jsstring" where
  "matched s m = slice s (fst m) (fst (snd m))"

definition group :: "jsstring \<Rightarrow> rmatch \<Rightarrow> nat \<Rightarrow> jsstring" where
  "group s m k = (let g = snd (snd m) ! (k - 1) in slice s (fst g) (snd g))"

section \<open>Numbers and their decimal text\<close>

text \<open>
  \<open>parseInt(text, 10)\<close>: leading white space, a sign, then the longest run of decimal
  digits; \<open>None\<close> is \<open>NaN\<close> (no digit there).
\<close>

definition digitsValue :: "jsstring \<Rightarrow> int" where
  "digitsValue ds = foldl (\<lambda>a c. 10 * a + (c - 48)) 0 ds"

definition parseInt :: "jsstring \<Rightarrow> int option" where
  "parseInt s =
     (let t = trimStart s;
          neg = (t \<noteq> [] \<and> hd t = 45);
          u = (if t \<noteq> [] \<and> (hd t = 45 \<or> hd t = 43) then tl t else t);
          ds = takeWhile isDigit u
      in if ds = [] then None else Some (if neg then - digitsValue ds else digitsValue ds))"

text \<open>The decimal text of an integer, as a template literal prints it; \<open>NaN\<close> prints as such.\<close>

function natDigits :: "nat \<Rightarrow> jsstring" where
  "natDigits n = (if n < 10 then [48 + int n] else natDigits (n div 10) @ [48 + int (n mod 10)])"
  by pat_completeness auto
termination
  by (relation "measure id") auto

declare natDigits.simps [simp del]

definition intToString :: "int \<Rightarrow> jsstring" where
  "intToString k = (if k < 0 then 45 # natDigits (nat (- k)) else natDigits (nat k))"

definition numToString :: "int option \<Rightarrow> jsstring" where
  "numToString v = (case v of None \<Rightarrow> str ''NaN'' | Some k \<Rightarrow> intToString k)"

definition padLeft :: "nat \<Rightarrow> jsstring \<Rightarrow> jsstring" where
  "padLeft n s = replicate (n - length s) 48 @ s"

section \<open>Dates\<close>

text \<open>
  A \<open>Date\<close> object holds a time value: milliseconds since the epoch in UTC, or \<open>NaN\<close>
  (an invalid date). Local time is UTC plus the host's offset \<open>tz\<close> (milliseconds, for
  Rome in winter \<open>3600000\<close>), which the embedding takes as constant. The day arithmetic
  is ECMAScript's: \<open>DayFromYear\<close>, \<open>MakeDay\<close>, \<open>TimeClip\<close>.
\<close>

datatype jsdate = InvalidDate | Date int

definition msPerDay :: int where
  "msPerDay = 86400000"

definition isLeap :: "int \<Rightarrow> bool" where
  "isLeap y = (y mod 4 = 0 \<and> (y mod 100 \<noteq> 0 \<or> y mod 400 = 0))"

definition DayFromYear :: "int \<Rightarrow> int" where
  "DayFromYear y = 365 * (y - 1970) + (y - 1969) div 4 - (y - 1901) div 100 + (y - 1601) div 400"

definition monthStart :: "bool \<Rightarrow> int \<Rightarrow> int" where
  "monthStart leap m =
     (if m = 0 then 0 else if m = 1 then 31
      else (if leap then 1 else 0) +
        (if m = 2 then 59 else if m = 3 then 90 else if m = 4 then 120 else if m = 5 then 151
         else if m = 6 then 181 else if m = 7 then 212 else if m = 8 then 243
         else if m = 9 then 273 else if m = 10 then 304 else 334))"

definition MakeDay :: "int \<Rightarrow> int \<Rightarrow> int \<Rightarrow> int" where
  "MakeDay year month date =
     (let ym = year + month div 12; mn = month mod 12
      in DayFromYear ym + monthStart (isLeap ym) mn + date - 1)"

definition TimeClip :: "int \<Rightarrow> jsdate" where
  "TimeClip t = (if \<bar>t\<bar> > 8640000000000000 then InvalidDate else Date t)"

text \<open>
  \<open>new Date(year, month, day)\<close>: local midnight of that day. A year from 0 to 99 means
  1900 + year; a month that is \<open>NaN\<close> (\<open>None\<close>) gives an invalid date; month and day
  outside their ranges carry over.
\<close>

definition newDateYMD :: "int \<Rightarrow> int \<Rightarrow> int option \<Rightarrow> int \<Rightarrow> jsdate" where
  "newDateYMD tz year month day =
     (case month of
        None \<Rightarrow> InvalidDate
      | Some m \<Rightarrow>
          let yr = (if 0 \<le> year \<and> year \<le> 99 then 1900 + year else year)
          in TimeClip (MakeDay yr m day * msPerDay - tz))"

text \<open>
  From a day number back to year, month (0 to 11) and day of the month: the inverse of
  \<open>MakeDay\<close> on calendar dates, computed on the 400-year cycle that starts on 1 March.
\<close>

definition civil :: "int \<Rightarrow> int \<times> int \<times> int" where
  "civil day =
     (let z = day + 719468;
          era = z div 146097;
          doe = z - era * 146097;
          yoe = (doe - doe div 1460 + doe div 36524 - doe div 146096) div 365;
          doy = doe - (365 * yoe + yoe div 4 - yoe div 100);
          mp = (5 * doy + 2) div 153;
          d = doy - (153 * mp + 2) div 5 + 1;
          m = (if mp < 10 then mp + 2 else mp - 10);
          y = yoe + era * 400 + (if m \<le> 1 then 1 else 0)
      in (y, m, d))"

text \<open>\<open>getFullYear\<close> and \<open>getMonth\<close> read the local date; on an invalid date they give \<open>NaN\<close>.\<close>

definition localDay :: "int \<Rightarrow> int \<Rightarrow> int" where
  "localDay tz t = (t + tz) div msPerDay"

definition getFullYear :: "int \<Rightarrow> jsdate \<Rightarrow> int option" where
  "getFullYear tz d = (case d of InvalidDate \<Rightarrow> None | Date t \<Rightarrow> Some (fst (civil (localDay tz t))))"

definition getMonth :: "int \<Rightarrow> jsdate \<Rightarrow> int option" where
  "getMonth tz d = (case d of InvalidDate \<Rightarrow> None | Date t \<Rightarrow> Some (fst (snd (civil (localDay tz t)))))"

text \<open>
  \<open>d.toISOString().split("T")[0]\<close>: the date part of the UTC timestamp, four digits for
  the years 0 to 9999 and a sign with six digits otherwise. \<open>toISOString\<close> throws a
  RangeError on an invalid date: \<open>None\<close>.
\<close>

definition isoDatePart :: "jsdate \<Rightarrow> jsstring option" where
  "isoDatePart d =
     (case d of
        InvalidDate \<Rightarrow> None
      | Date t \<Rightarrow>
          (case civil (t div msPerDay) of
             (y, m, dd) \<Rightarrow>
               Some ((if 0 \<le> y \<and> y \<le> 9999 then padLeft 4 (natDigits (nat y))
                      else (if y < 0 then 45 else 43) # padLeft 6 (natDigits (nat \<bar>y\<bar>)))
                     @ [45] @ padLeft 2 (natDigits (nat (m + 1)))
                     @ [45] @ padLeft 2 (natDigits (nat dd)))))"

text \<open>\<open>today.setHours(0, 0, 0, 0)\<close> on \<open>new Date()\<close>: the local midnight that starts today.\<close>

definition startOfToday :: "int \<Rightarrow> int \<Rightarrow> int" where
  "startOfToday tz now = localDay tz now * msPerDay - tz"

section \<open>The date normalizer\<close>

text \<open>
  \<open>monthMap[key]\<close> is a property read on an object literal: one of the twelve own
  entries, or \<open>undefined\<close> (\<open>None\<close>), or, for the one lower-case name that
  \<open>Object.prototype\<close> defines (\<open>constructor\<close>), an inherited function, which is not
  \<open>undefined\<close> and turns into \<open>NaN\<close> as a month.
\<close>

datatype monthEntry = Month int | Inherited

definition monthNames :: "string list" where
  "monthNames = [''gennaio'', ''febbraio'', ''marzo'', ''aprile'', ''maggio'', ''giugno'',
     ''luglio'', ''agosto'', ''settembre'', ''ottobre'', ''novembre'', ''dicembre'']"

definition monthMap :: "jsstring \<Rightarrow> monthEntry option" where
  "monthMap key =
     (case map_of (zip (map str monthNames) [0 ..< 12]) key of
        Some k \<Rightarrow> Some (Month (int k))
      | None \<Rightarrow> if key = str ''constructor'' then Some Inherited else None)"

text \<open>
  The class \<open>[a-z\<agrave>-\<ugrave>]\<close> under the \<open>i\<close> flag: a code unit matches when
  its canonical (upper-case) form is that of a member, so the class also holds A-Z and
  the upper-case forms U+00C0..U+00D6, U+00D8, U+00D9 of its accented members.
\<close>

definition isMonthLetter :: "int \<Rightarrow> bool" where
  "isMonthLetter c = ((97 \<le> c \<and> c \<le> 122) \<or> (65 \<le> c \<and> c \<le> 90)
     \<or> (192 \<le> c \<and> c \<le> 214) \<or> c = 216 \<or> c = 217 \<or> (224 \<le> c \<and> c \<le> 249))"

text \<open>\<open>/(\d{1,2})\s+([a-z\<agrave>-\<ugrave>]+)\s+(\d{4})/gi\<close>\<close>

definition datePattern :: regex where
  "datePattern =
     Seq (Group (Rep12 (Cls isDigit)))
       (Seq (Plus (Cls isSpace))
         (Seq (Group (Plus (Cls isMonthLetter)))
           (Seq (Plus (Cls isSpace))
             (Group (Rep4 (Cls isDigit))))))"

text \<open>
  \<open>parseItalianDate\<close>: \<open>None\<close> is \<open>null\<close>. The two \<open>isNaN\<close> tests of the source are kept
  as the \<open>None\<close> cases of \<open>parseInt\<close>.
\<close>

definition dateOfMatch :: "int \<Rightarrow> jsstring \<Rightarrow> rmatch \<Rightarrow> jsdate option" where
  "dateOfMatch tz s m =
     (let day = parseInt (group s m 1);
          month = monthMap (toLowerCase (group s m 2));
          year = parseInt (group s m 3)
      in case (month, day, year) of
           (Some mo, Some d, Some y) \<Rightarrow>
             Some (newDateYMD tz y (case mo of Month k \<Rightarrow> Some k | Inherited \<Rightarrow> None) d)
         | _ \<Rightarrow> None)"

definition parseItalianDate :: "int \<Rightarrow> jsstring \<Rightarrow> jsdate option" where
  "parseItalianDate tz dateStr =
     (let normalized = trim (toLowerCase dateStr);
          matches = matchAll datePattern normalized
      in if matches = [] then None else dateOfMatch tz normalized (last matches))"

section \<open>Values, records and the host\<close>

text \<open>
  The record's \<open>location\<close> is typed \<open>any\<close> in the source, so it is a JavaScript value
  here: a string on the pages that print one, an object when it comes from JSON-LD, an
  array in the oldest handler. A finite number is a rational (every finite double is
  one; the two zeros are one value); \<open>truthy\<close> is ECMAScript's ToBoolean.
\<close>

datatype number = NaN | PosInf | NegInf | Fin rat

datatype jsval =
    Undefined
  | Null
  | Bool bool
  | Num number
  | Str jsstring
  | Arr "jsval list"
  | Obj "(jsstring \<times> jsval) list"

fun truthy :: "jsval \<Rightarrow> bool" where
  "truthy Undefined = False"
| "truthy Null = False"
| "truthy (Bool b) = b"
| "truthy (Num n) = (case n of NaN \<Rightarrow> False | Fin q \<Rightarrow> q \<noteq> 0 | _ \<Rightarrow> True)"
| "truthy (Str s) = (s \<noteq> [])"
| "truthy (Arr xs) = True"
| "truthy (Obj kv) = True"

text \<open>\<open>typeof v === "object"\<close> (true of \<open>null\<close> too), \<open>v.k\<close> and \<open>k in v\<close> for the keys
  the source reads (\<open>geo\<close>, \<open>latitude\<close>, \<open>longitude\<close>, \<open>name\<close>: no array and no primitive
  has them).\<close>

fun isObject :: "jsval \<Rightarrow> bool" where
  "isObject (Obj kv) = True"
| "isObject (Arr xs) = True"
| "isObject Null = True"
| "isObject v = False"

fun getProp :: "jsval \<Rightarrow> jsstring \<Rightarrow> jsval" where
  "getProp (Obj kv) k = (case map_of kv k of Some v \<Rightarrow> v | None \<Rightarrow> Undefined)"
| "getProp v k = Undefined"

fun hasProp :: "jsval \<Rightarrow> jsstring \<Rightarrow> bool" where
  "hasProp (Obj kv) k = (map_of kv k \<noteq> None)"
| "hasProp v k = False"

text \<open>
  What the run time supplies: the local-time offset, \<open>Date.parse\<close> (whose grammar beyond
  the ISO forms is implementation-defined) as \<open>new Date(text)\<close> uses it, and ToString of a
  value that is not a string.
\<close>

record host =
  tzOffset :: int
  dateParse :: "jsstring \<Rightarrow> jsdate"
  toStringOf :: "jsval \<Rightarrow> jsstring"

definition String :: "host \<Rightarrow> jsval \<Rightarrow> jsstring" where
  "String h v = (case v of Str s \<Rightarrow> s | _ \<Rightarrow> toStringOf h v)"

text \<open>The fields of \<open>Partial<FestivalData>\<close> that the helpers read; \<open>None\<close> is \<open>undefined\<close>.\<close>

record festival =
  title :: "jsstring option"
  location :: jsval
  startDate :: "jsstring option"
  endDate :: "jsstring option"
  dates :: "jsstring list option"

section \<open>The temporal filter\<close>

text \<open>
  \<open>if (f) { const d = new Date(f); if (!isNaN(d.getTime())) ... }\<close>: the time value of a
  field that is present, not empty, and parses.
\<close>

definition fieldTime :: "host \<Rightarrow> jsstring option \<Rightarrow> int option" where
  "fieldTime h f =
     (case f of
        None \<Rightarrow> None
      | Some s \<Rightarrow> if s = [] then None
                  else (case dateParse h s of InvalidDate \<Rightarrow> None | Date t \<Rightarrow> Some t))"

text \<open>
  The loop over the raw fragments: \<open>False\<close> at the first fragment that parses to a date
  not before today, \<open>True\<close> when the loop runs out. An invalid date compares false.
\<close>

primrec datesLoop :: "int \<Rightarrow> int \<Rightarrow> jsstring list \<Rightarrow> bool" where
  "datesLoop tz today [] = True"
| "datesLoop tz today (d # ds) =
     (case parseItalianDate tz d of
        Some (Date t) \<Rightarrow> if today \<le> t then False else datesLoop tz today ds
      | _ \<Rightarrow> datesLoop tz today ds)"

definition isFestivalPast :: "host \<Rightarrow> int \<Rightarrow> festival \<Rightarrow> bool" where
  "isFestivalPast h now fd =
     (let today = startOfToday (tzOffset h) now
      in case fieldTime h (endDate fd) of
           Some t \<Rightarrow> t < today
         | None \<Rightarrow>
             (case fieldTime h (startDate fd) of
                Some t \<Rightarrow> t < today
              | None \<Rightarrow>
                  (case dates fd of
                     Some ds \<Rightarrow> if ds \<noteq> [] then datesLoop (tzOffset h) today ds else False
                   | None \<Rightarrow> False)))"

section \<open>The duplicate detector\<close>

definition monthYear :: "int \<Rightarrow> jsdate \<Rightarrow> jsstring" where
  "monthYear tz d = numToString (getMonth tz d) @ [45] @ numToString (getFullYear tz d)"

definition generateFestivalKey :: "host \<Rightarrow> festival \<Rightarrow> jsstring" where
  "generateFestivalKey h fd =
     (let normalizedTitle = (case title fd of None \<Rightarrow> [] | Some t \<Rightarrow> trim (toLowerCase t));
          locationStr =
            (case location fd of
               Str s \<Rightarrow> trim (toLowerCase s)
             | v \<Rightarrow> if truthy v \<and> isObject v \<and> hasProp v (str ''name'')
                    then trim (toLowerCase (String h (getProp v (str ''name''))))
                    else []);
          dateKey =
            (case startDate fd of
               Some s \<Rightarrow>
                 if s \<noteq> [] then
                   (case dateParse h s of InvalidDate \<Rightarrow> [] | Date t \<Rightarrow> monthYear (tzOffset h) (Date t))
                 else
                   (case dates fd of
                      Some (d # ds) \<Rightarrow>
                        (case parseItalianDate (tzOffset h) d of
                           Some pd \<Rightarrow> monthYear (tzOffset h) pd | None \<Rightarrow> [])
                    | _ \<Rightarrow> [])
             | None \<Rightarrow>
                 (case dates fd of
                    Some (d # ds) \<Rightarrow>
                      (case parseItalianDate (tzOffset h) d of
                         Some pd \<Rightarrow> monthYear (tzOffset h) pd | None \<Rightarrow> [])
                  | _ \<Rightarrow> []))
      in normalizedTitle @ [124] @ locationStr @ [124] @ dateKey)"

text \<open>
  The module's \<open>seenFestivals\<close> set is the state: \<open>isDuplicate\<close> takes it and returns it
  with its answer.
\<close>

definition isDuplicate :: "host \<Rightarrow> jsstring set \<Rightarrow> festival \<Rightarrow> bool \<times> jsstring set" where
  "isDuplicate h seen fd =
     (let key = generateFestivalKey h fd
      in if key \<in> seen then (True, seen) else (False, insert key seen))"

definition clearDuplicateCache :: "jsstring set \<Rightarrow> jsstring set" where
  "clearDuplicateCache seen = {}"

section \<open>The range-splitting parser of the calendar pages\<close>

text \<open>
  The numbers that \<open>parseInt\<close>, \<open>Math.min\<close> and \<open>Math.max\<close> produce here: an integer,
  \<open>NaN\<close>, or the infinities that \<open>Math.min()\<close> and \<open>Math.max()\<close> give on no argument.
\<close>

datatype jsint = NaNv | PosInfinity | NegInfinity | IntV int

definition toJsint :: "int option \<Rightarrow> jsint" where
  "toJsint v = (case v of None \<Rightarrow> NaNv | Some k \<Rightarrow> IntV k)"

fun min2 :: "jsint \<Rightarrow> jsint \<Rightarrow> jsint" where
  "min2 NaNv b = NaNv"
| "min2 a NaNv = NaNv"
| "min2 NegInfinity b = NegInfinity"
| "min2 a NegInfinity = NegInfinity"
| "min2 PosInfinity b = b"
| "min2 a PosInfinity = a"
| "min2 (IntV x) (IntV y) = IntV (min x y)"

fun max2 :: "jsint \<Rightarrow> jsint \<Rightarrow> jsint" where
  "max2 NaNv b = NaNv"
| "max2 a NaNv = NaNv"
| "max2 PosInfinity b = PosInfinity"
| "max2 a PosInfinity = PosInfinity"
| "max2 NegInfinity b = b"
| "max2 a NegInfinity = a"
| "max2 (IntV x) (IntV y) = IntV (max x y)"

definition mathMin :: "jsint list \<Rightarrow> jsint" where
  "mathMin xs = foldl min2 PosInfinity xs"

definition mathMax :: "jsint list \<Rightarrow> jsint" where
  "mathMax xs = foldl max2 NegInfinity xs"

definition jsintText :: "jsint \<Rightarrow> jsstring" where
  "jsintText v =
     (case v of NaNv \<Rightarrow> str ''NaN'' | PosInfinity \<Rightarrow> str ''Infinity''
      | NegInfinity \<Rightarrow> str ''-Infinity'' | IntV k \<Rightarrow> intToString k)"

text \<open>
  \<open>s.indexOf(t)\<close> (\<open>-1\<close> when \<open>t\<close> does not occur) and \<open>s.substring(a, b)\<close> on any two
  integers: both are clamped to the string and swapped when out of order.
\<close>

function indexFrom :: "jsstring \<Rightarrow> jsstring \<Rightarrow> nat \<Rightarrow> int" where
  "indexFrom s t i =
     (if length s < i + length t then - 1
      else if take (length t) (drop i s) = t then int i
      else indexFrom s t (Suc i))"
  by pat_completeness auto
termination
  by (relation "measure (\<lambda>(s, t, i). Suc (length s) - i)") auto

declare indexFrom.simps [simp del]

definition indexOf :: "jsstring \<Rightarrow> jsstring \<Rightarrow> int" where
  "indexOf s t = indexFrom s t 0"

definition clampIndex :: "jsstring \<Rightarrow> int \<Rightarrow> nat" where
  "clampIndex s k = (if k < 0 then 0 else min (nat k) (length s))"

definition substring :: "jsstring \<Rightarrow> int \<Rightarrow> int \<Rightarrow> jsstring" where
  "substring s a b =
     (let x = clampIndex s a; y = clampIndex s b in slice s (min x y) (max x y))"

definition substringFrom :: "jsstring \<Rightarrow> int \<Rightarrow> jsstring" where
  "substringFrom s a = substring s a (int (length s))"

text \<open>
  \<open>s.split(r)\<close> for a regular expression without groups: the splitter tries \<open>r\<close> at
  each index \<open>q\<close> in turn; a match that ends where the current piece starts is skipped.
\<close>

function splitLoop :: "regex \<Rightarrow> jsstring \<Rightarrow> nat \<Rightarrow> nat \<Rightarrow> jsstring list \<Rightarrow> jsstring list" where
  "splitLoop r s p q acc =
     (if length s \<le> q then acc @ [slice s p (length s)]
      else case matchAt r s q of
             None \<Rightarrow> splitLoop r s p (Suc q) acc
           | Some m \<Rightarrow>
               if fst (snd m) = p then splitLoop r s p (Suc q) acc
               else splitLoop r s (fst (snd m)) (fst (snd m)) (acc @ [slice s p q]))"
  by pat_completeness auto
termination
proof (relation "measure (\<lambda>(r, s, p, q, acc). 2 * (length s - q) + (if p = q then 0 else 1))")
  show "wf (measure (\<lambda>(r, s, p, q, acc). 2 * (length s - q) + (if p = q then 0 else 1)))" by simp
next
  fix r s p q and acc :: "jsstring list"
  assume "\<not> length s \<le> q"
  then show "((r, s, p, Suc q, acc), r, s, p, q, acc)
      \<in> measure (\<lambda>(r, s, p, q, acc). 2 * (length s - q) + (if p = q then 0 else 1))"
    by auto
next
  fix r s p q and acc :: "jsstring list" and m
  assume "\<not> length s \<le> q"
  then show "((r, s, p, Suc q, acc), r, s, p, q, acc)
      \<in> measure (\<lambda>(r, s, p, q, acc). 2 * (length s - q) + (if p = q then 0 else 1))"
    by auto
next
  fix r s p q and acc :: "jsstring list" and m
  assume q: "\<not> length s \<le> q" and m: "matchAt r s q = Some m" and ne: "fst (snd m) \<noteq> p"
  obtain b e c where mm: "m = (b, e, c)" by (cases m) auto
  from matchAt_bounds[OF m[unfolded mm]] have "q \<le> e" by simp
  with q ne mm
  show "((r, s, fst (snd m), fst (snd m), acc @ [slice s p q]), r, s, p, q, acc)
      \<in> measure (\<lambda>(r, s, p, q, acc). 2 * (length s - q) + (if p = q then 0 else 1))"
    by (cases "e = q") auto
qed

declare splitLoop.simps [simp del]

definition split :: "regex \<Rightarrow> jsstring \<Rightarrow> jsstring list" where
  "split r s =
     (if s = [] then (if matchAt r s 0 = None then [[]] else [])
      else splitLoop r s 0 0 [])"

text \<open>
  The patterns of \<open>REGEX_PATTERNS\<close>. A letter of a pattern with the \<open>i\<close> flag matches
  itself and its upper-case form.

  \<open>YEAR = /\b(20\d{2})\b/\<close>,
  \<open>ITALIAN_MONTH = /(gennaio|febbraio|...|dicembre)/gi\<close>,
  \<open>DAY_NUMBERS = /\b(\d{1,2})(?:\s*-\s*(\d{1,2}))*\b/g\<close> (only its whole match is read),
  and the two patterns written in place, \<open>/\s*-\s*/\<close> and \<open>/\b(\d{1,2})\b/g\<close>.
\<close>

definition ciLetter :: "int \<Rightarrow> int \<Rightarrow> bool" where
  "ciLetter c d = (d = c \<or> d = c - 32)"

primrec litCI :: "jsstring \<Rightarrow> regex" where
  "litCI [] = Empty"
| "litCI (c # cs) = Seq (Cls (ciLetter c)) (litCI cs)"

primrec altList :: "regex \<Rightarrow> regex list \<Rightarrow> regex" where
  "altList r [] = r"
| "altList r (x # xs) = Alt r (altList x xs)"

definition YEAR :: regex where
  "YEAR = Seq WordB (Seq (Group (Seq (Cls (\<lambda>c. c = 50)) (Seq (Cls (\<lambda>c. c = 48))
            (Seq (Cls isDigit) (Cls isDigit))))) WordB)"

definition ITALIAN_MONTH :: regex where
  "ITALIAN_MONTH =
     Group (altList (litCI (str (hd monthNames))) (map (\<lambda>n. litCI (str n)) (tl monthNames)))"

definition DAY_NUMBERS :: regex where
  "DAY_NUMBERS =
     Seq WordB (Seq (Group (Rep12 (Cls isDigit)))
       (Seq (Star (Seq (Star (Cls isSpace)) (Seq (Cls (\<lambda>c. c = 45))
               (Seq (Star (Cls isSpace)) (Group (Rep12 (Cls isDigit)))))))
            WordB))"

definition dashPattern :: regex where
  "dashPattern = Seq (Star (Cls isSpace)) (Seq (Cls (\<lambda>c. c = 45)) (Star (Cls isSpace)))"

definition singleDayPattern :: regex where
  "singleDayPattern = Seq WordB (Seq (Group (Rep12 (Cls isDigit))) WordB)"

text \<open>
  \<open>parseSagradateText\<close>. Its result holds \<open>startDate\<close> and \<open>endDate\<close>, each present or
  not; \<open>toISOString\<close> on an invalid date throws, which is \<open>Inl RangeError\<close>. The clock
  \<open>now\<close> is read for the default year.
\<close>

datatype error = RangeError | ValidationError | TypeError | SyntaxError

record parsedDates =
  pStartDate :: "jsstring option"
  pEndDate :: "jsstring option"

definition isoOf :: "jsdate option \<Rightarrow> error + jsstring option" where
  "isoOf d =
     (case d of
        None \<Rightarrow> Inr None
      | Some x \<Rightarrow> (case isoDatePart x of None \<Rightarrow> Inl RangeError | Some t \<Rightarrow> Inr (Some t)))"

definition assignDates :: "jsdate option \<Rightarrow> jsdate option \<Rightarrow> error + parsedDates" where
  "assignDates sd ed =
     (case isoOf sd of
        Inl e \<Rightarrow> Inl e
      | Inr a \<Rightarrow> (case isoOf ed of
                    Inl e \<Rightarrow> Inl e
                  | Inr b \<Rightarrow> Inr \<lparr>pStartDate = a, pEndDate = b\<rparr>))"

definition dayNumbersOf :: "jsstring \<Rightarrow> jsint list" where
  "dayNumbersOf t = map (\<lambda>m. toJsint (parseInt (matched t m))) (matchAll singleDayPattern t)"

definition parseSagradateText :: "int \<Rightarrow> int \<Rightarrow> jsstring \<Rightarrow> error + parsedDates" where
  "parseSagradateText tz now sagradateText =
     (if sagradateText = [] then Inr \<lparr>pStartDate = None, pEndDate = None\<rparr>
      else
        let year = (case search YEAR sagradateText 0 of
                      Some m \<Rightarrow> group sagradateText m 1
                    | None \<Rightarrow> numToString (getFullYear tz (Date now)));
            months = map (matched sagradateText) (matchAll ITALIAN_MONTH sagradateText);
            dayMatches = matchAll DAY_NUMBERS sagradateText
        in if months \<noteq> [] \<and> dayMatches \<noteq> [] then
             let allDays = concat (map (\<lambda>m. map (\<lambda>d. toJsint (parseInt (trim d)))
                                              (split dashPattern (matched sagradateText m)))
                                  dayMatches);
                 firstDay = mathMin allDays;
                 lastDay = mathMax allDays
             in if length months = 1 then
                  let month = hd months;
                      startDate = parseItalianDate tz (jsintText firstDay @ [32] @ month @ [32] @ year);
                      endDate = parseItalianDate tz (jsintText lastDay @ [32] @ month @ [32] @ year)
                  in assignDates startDate endDate
                else
                  let firstMonth = hd months;
                      lastMonth = last months;
                      firstMonthIndex = indexOf sagradateText firstMonth;
                      secondMonthIndex = indexOf sagradateText lastMonth;
                      beforeSecondMonth = substring sagradateText 0 secondMonthIndex;
                      daysBeforeSecondMonth = dayNumbersOf beforeSecondMonth;
                      afterFirstMonth =
                        substringFrom sagradateText (firstMonthIndex + int (length firstMonth));
                      daysAfterFirstMonth = dayNumbersOf afterFirstMonth;
                      startDay = (if daysBeforeSecondMonth \<noteq> [] then hd daysBeforeSecondMonth
                                  else firstDay);
                      startDate = parseItalianDate tz
                        (jsintText startDay @ [32] @ firstMonth @ [32] @ year);
                      endDay = (if daysAfterFirstMonth \<noteq> [] then mathMax daysAfterFirstMonth
                                else lastDay);
                      endDate = parseItalianDate tz
                        (jsintText endDay @ [32] @ lastMonth @ [32] @ year)
                  in assignDates startDate endDate
           else Inr \<lparr>pStartDate = None, pEndDate = None\<rparr>)"

section \<open>A host for the worked examples\<close>

text \<open>
  The theorems below hold for every host. The worked examples run on a host whose
  \<open>Date.parse\<close> reads the date-only ISO form \<open>YYYY-MM-DD\<close> (UTC midnight of that day,
  as ECMAScript requires) and rejects every other text; \<open>sampleHost 3600000\<close> is that host
  one hour east of UTC (Rome in winter). The clock of the examples, \<open>1762167600000\<close>, is
  2025-11-03T11:00:00Z.
\<close>

definition daysInMonth :: "int \<Rightarrow> int \<Rightarrow> int" where
  "daysInMonth y m =
     (if m = 2 then (if isLeap y then 29 else 28)
      else if m = 4 \<or> m = 6 \<or> m = 9 \<or> m = 11 then 30 else 31)"

definition isoDateParse :: "jsstring \<Rightarrow> jsdate" where
  "isoDateParse s =
     (if length s = 10 \<and> s ! 4 = 45 \<and> s ! 7 = 45
         \<and> list_all isDigit (take 4 s @ slice s 5 7 @ slice s 8 10)
      then
        let y = digitsValue (take 4 s); m = digitsValue (slice s 5 7); d = digitsValue (slice s 8 10)
        in if 1 \<le> m \<and> m \<le> 12 \<and> 1 \<le> d \<and> d \<le> daysInMonth y m
           then Date (MakeDay y (m - 1) d * msPerDay) else InvalidDate
      else InvalidDate)"

definition sampleHost :: "int \<Rightarrow> host" where
  "sampleHost tz =
     \<lparr>tzOffset = tz, dateParse = isoDateParse, toStringOf = (\<lambda>v. str ''[object Object]'')\<rparr>"

definition rawOnly :: "jsstring list \<Rightarrow> festival" where
  "rawOnly ds = \<lparr>title = Some (str ''Sagra''), location = Str [], startDate = None,
     endDate = None, dates = Some ds\<rparr>"

definition endsOn :: "jsstring \<Rightarrow> festival" where
  "endsOn e = \<lparr>title = Some (str ''Sagra''), location = Str [], startDate = None,
     endDate = Some e, dates = Some []\<rparr>"

definition undated :: festival where
  "undated = \<lparr>title = Some (str ''Sagra''), location = Str [], startDate = None,
     endDate = None, dates = None\<rparr>"

definition tortello :: "string \<Rightarrow> string \<Rightarrow> festival" where
  "tortello t l = \<lparr>title = Some (str t), location = Str (str l),
     startDate = Some (str ''2025-11-07''), endDate = Some (str ''2025-11-09''), dates = Some []\<rparr>"

section \<open>The temporal filter: what it decides\<close>

text \<open>\<open>startOfToday\<close> is the start of the local day that holds \<open>now\<close>.\<close>

lemma startOfToday_bounds:
  "startOfToday tz now \<le> now \<and> now < startOfToday tz now + msPerDay"
proof -
  have a: "(now + tz) div 86400000 * 86400000 = (now + tz) - (now + tz) mod 86400000"
    by (simp add: minus_mod_eq_div_mult)
  have b: "0 \<le> (now + tz) mod 86400000 \<and> (now + tz) mod 86400000 < 86400000"
    by simp
  show ?thesis unfolding startOfToday_def localDay_def msPerDay_def a using b by linarith
qed

lemma datesLoop_all_unparsed:
  "\<forall>d \<in> set ds. parseItalianDate tz d = None \<Longrightarrow> datesLoop tz today ds = True"
  by (induction ds) auto

text \<open>
  When no structured date parses and no raw fragment parses either, the loop runs out
  and the record is reported as past, whatever the clock says.
\<close>

lemma isFestivalPast_all_unparsed:
  assumes "fieldTime h (endDate fd) = None" and "fieldTime h (startDate fd) = None"
    and "dates fd = Some ds" and "ds \<noteq> []"
    and "\<forall>d \<in> set ds. parseItalianDate (tzOffset h) d = None"
  shows "isFestivalPast h now fd = True"
  using assms datesLoop_all_unparsed[OF assms(5)]
  by (simp add: isFestivalPast_def Let_def)

text \<open>
  Claim C2 (the code departs from it). The claim: a record with no \<open>startDate\<close> and no
  \<open>endDate\<close> whose raw fragments all fail to parse is kept (\<open>isFestivalPast\<close> is false).
  The code: the only fragment of this record, a period without a year, does not parse,
  and \<open>isFestivalPast\<close> answers true, so the record is dropped.
\<close>

theorem isFestivalPast_unparsed_fragment_dropped:
  "isFestivalPast (sampleHost 3600000) 1762167600000 (rawOnly [str ''8 novembre - 9 novembre''])
     = True"
  by code_simp

lemma isFestivalPast_endDate_instant:
  assumes "endDate fd = Some e" and "e \<noteq> []" and "dateParse h e = Date t"
  shows "isFestivalPast h now fd = (t < startOfToday (tzOffset h) now)"
  using assms by (simp add: isFestivalPast_def fieldTime_def Let_def)

lemma isFestivalPast_undated:
  assumes "endDate fd = None" and "startDate fd = None" and "dates fd = None"
  shows "\<not> isFestivalPast h now fd"
  using assms by (simp add: isFestivalPast_def fieldTime_def Let_def)

text \<open>
  A date-only text (\<open>YYYY-MM-DD\<close>) is read as UTC midnight of its day, day number \<open>D\<close>,
  while the start of today is a local midnight. On a host at UTC or east of it the
  record is past exactly when its end day is before the local day of the clock. West of
  UTC the UTC midnight of the local day lies before the local midnight, and a record
  that ends today is reported as past as well.
\<close>

lemma isFestivalPast_date_only:
  assumes "endDate fd = Some e" and "e \<noteq> []" and "dateParse h e = Date (D * msPerDay)"
  shows "(0 \<le> tzOffset h \<and> tzOffset h < msPerDay \<longrightarrow>
            isFestivalPast h now fd = (D < localDay (tzOffset h) now))
       \<and> (- msPerDay < tzOffset h \<and> tzOffset h < 0 \<longrightarrow>
            isFestivalPast h now fd = (D \<le> localDay (tzOffset h) now))"
proof -
  have p: "isFestivalPast h now fd
      = (D * 86400000 < localDay (tzOffset h) now * 86400000 - tzOffset h)"
    using isFestivalPast_endDate_instant[OF assms]
    by (simp add: startOfToday_def msPerDay_def)
  show ?thesis unfolding p msPerDay_def by auto
qed

text \<open>
  Claim C3 (the code departs from it). The claim: a record whose \<open>endDate\<close> is today is
  not past. The code, on a host five hours west of UTC at 06:00 local time on
  3 November 2025 (the clock \<open>1762167600000\<close>): the local date is 3 November 2025, the
  \<open>endDate\<close> text \<open>2025-11-03\<close> is read as UTC midnight, which is 19:00 of 2 November
  local time and lies before the local midnight that starts today, and the record is
  reported as past.
\<close>

theorem isFestivalPast_today_west_of_utc:
  "civil (localDay (-18000000) 1762167600000) = (2025, 10, 3)
   \<and> dateParse (sampleHost (-18000000)) (str ''2025-11-03'') = Date (MakeDay 2025 10 3 * msPerDay)
   \<and> startOfToday (-18000000) 1762167600000 = MakeDay 2025 10 3 * msPerDay + 18000000
   \<and> isFestivalPast (sampleHost (-18000000)) 1762167600000 (endsOn (str ''2025-11-03'')) = True"
  by code_simp

text \<open>The same record on a host one hour east of UTC, and the day before's.\<close>

lemma isFestivalPast_endDate_in_rome:
  "isFestivalPast (sampleHost 3600000) 1762167600000 (endsOn (str ''2025-11-02''))
   \<and> \<not> isFestivalPast (sampleHost 3600000) 1762167600000 (endsOn (str ''2025-11-03''))
   \<and> \<not> isFestivalPast (sampleHost 3600000) 1762167600000 undated"
  by code_simp

section \<open>The duplicate detector: what it remembers\<close>

text \<open>
  Claim C5. A call of \<open>isDuplicate\<close> answers whether the record's key was already seen
  and leaves the key in the set. So the next call with a record of the same key (the
  same normalized title, location text and month-year) answers true; and on a set that
  does not hold the key yet (a cleared cache, say) two successive calls with the same
  record answer false, then true.
\<close>

theorem isDuplicate_twice:
  "fst (isDuplicate h seen fd) = (generateFestivalKey h fd \<in> seen)
   \<and> snd (isDuplicate h seen fd) = insert (generateFestivalKey h fd) seen
   \<and> (generateFestivalKey h fd' = generateFestivalKey h fd \<longrightarrow>
        isDuplicate h (snd (isDuplicate h seen fd)) fd'
          = (True, insert (generateFestivalKey h fd) seen))
   \<and> (generateFestivalKey h fd \<notin> seen \<longrightarrow>
        isDuplicate h seen fd = (False, insert (generateFestivalKey h fd) seen)
        \<and> isDuplicate h (snd (isDuplicate h seen fd)) fd
          = (True, insert (generateFestivalKey h fd) seen))
   \<and> isDuplicate h (clearDuplicateCache seen) fd = (False, {generateFestivalKey h fd})"
  by (auto simp: isDuplicate_def clearDuplicateCache_def Let_def)

theorem isDuplicate_twice_witness:
  "isDuplicate (sampleHost 3600000) {} (tortello ''Sagra del Tortello'' ''Imola'')
     = (False, {str ''sagra del tortello|imola|10-2025''})
   \<and> isDuplicate (sampleHost 3600000) {str ''sagra del tortello|imola|10-2025''}
        (tortello ''  SAGRA del Tortello '' ''imola '')
     = (True, {str ''sagra del tortello|imola|10-2025''})"
proof -
  let ?h = "sampleHost 3600000"
  let ?a = "tortello ''Sagra del Tortello'' ''Imola''"
  let ?b = "tortello ''  SAGRA del Tortello '' ''imola ''"
  have ka: "generateFestivalKey ?h ?a = str ''sagra del tortello|imola|10-2025''"
    by code_simp
  have kb: "generateFestivalKey ?h ?b = str ''sagra del tortello|imola|10-2025''"
    by code_simp
  have fresh: "generateFestivalKey ?h ?a \<notin> {}" by simp
  have same: "generateFestivalKey ?h ?b = generateFestivalKey ?h ?a"
    by (simp only: ka kb)
  note T = isDuplicate_twice[of ?h "{}" ?a ?b]
  from T fresh have 1: "isDuplicate ?h {} ?a = (False, insert (generateFestivalKey ?h ?a) {})"
    by blast
  from T have 2: "snd (isDuplicate ?h {} ?a) = insert (generateFestivalKey ?h ?a) {}"
    by blast
  from T same have 3: "isDuplicate ?h (snd (isDuplicate ?h {} ?a)) ?b
      = (True, insert (generateFestivalKey ?h ?a) {})"
    by blast
  from 1 3 show ?thesis unfolding 2 ka by simp
qed

section \<open>Coordinates for the upload\<close>

text \<open>
  \<open>v?.k\<close>: \<open>undefined\<close> when \<open>v\<close> is \<open>undefined\<close> or \<open>null\<close>, the property otherwise.
\<close>

definition optProp :: "jsval \<Rightarrow> jsstring \<Rightarrow> jsval" where
  "optProp v k = (case v of Undefined \<Rightarrow> Undefined | Null \<Rightarrow> Undefined | _ \<Rightarrow> getProp v k)"

text \<open>\<open>extractCoordinates\<close>: \<open>None\<close> is \<open>null\<close>, the pair is \<open>{lat, lng}\<close>.\<close>

definition extractCoordinates :: "festival \<Rightarrow> (jsval \<times> jsval) option" where
  "extractCoordinates fd =
     (if truthy (location fd) \<and> isObject (location fd) then
        let loc = location fd;
            latitude = optProp (getProp loc (str ''geo'')) (str ''latitude'');
            longitude = optProp (getProp loc (str ''geo'')) (str ''longitude'')
        in if truthy latitude \<and> truthy longitude then Some (latitude, longitude) else None
      else None)"

text \<open>
  \<open>geocodeLocation(locationString, apiKey)\<close>. Its first line,
  \<open>if (!locationString?.trim()) return null\<close>, stands before the \<open>try\<close>: on \<open>undefined\<close> and
  \<open>null\<close> the optional chain gives \<open>undefined\<close> and the function returns \<open>null\<close>; on a
  string it trims; on any other value \<open>trim\<close> is not a function and the call throws a
  TypeError, out of \<open>geocodeLocation\<close>. Only a string that is not blank reaches the
  request. What the service answers for a text (\<open>None\<close> when it has no result, answers
  with an error status or cannot be reached, all of which the \<open>try\<close> turns into \<open>null\<close>)
  is the parameter \<open>service\<close>. The result carries the texts that were sent.
\<close>

definition geocodeLocation ::
  "(jsstring \<Rightarrow> (jsval \<times> jsval) option) \<Rightarrow> jsval
     \<Rightarrow> error + ((jsval \<times> jsval) option \<times> jsstring list)" where
  "geocodeLocation service locationString =
     (case locationString of
        Undefined \<Rightarrow> Inr (None, [])
      | Null \<Rightarrow> Inr (None, [])
      | Str s \<Rightarrow> if trim s = [] then Inr (None, []) else Inr (service s, [s])
      | _ \<Rightarrow> Inl TypeError)"

text \<open>
  \<open>transformToStrapiFormat\<close>, as far as the position goes: the embedded coordinates, or
  else \<open>geocodeLocation\<close> on the record's \<open>location\<close> as it is; a throw inside the \<open>try\<close> is
  caught and the function returns \<open>null\<close>, as it does when there is no position. The
  payload is represented by its position (the other fields are built from a validated
  record): \<open>None\<close> is \<open>null\<close>. The second component lists the texts sent to the service.
\<close>

definition transformToStrapiFormat ::
  "(jsstring \<Rightarrow> (jsval \<times> jsval) option) \<Rightarrow> festival
     \<Rightarrow> (jsval \<times> jsval) option \<times> jsstring list" where
  "transformToStrapiFormat service fd =
     (case extractCoordinates fd of
        Some position \<Rightarrow> (Some position, [])
      | None \<Rightarrow>
          (case geocodeLocation service (location fd) of
             Inl e \<Rightarrow> (None, [])
           | Inr r \<Rightarrow> r))"

definition placeAt :: "jsval \<Rightarrow> jsval \<Rightarrow> festival" where
  "placeAt lat lng = \<lparr>title = Some (str ''Sagra''),
     location = Obj [(str ''name'', Str (str ''Quito'')),
                     (str ''geo'', Obj [(str ''latitude'', lat), (str ''longitude'', lng)])],
     startDate = None, endDate = None, dates = Some []\<rparr>"

definition placeNamed :: "string \<Rightarrow> festival" where
  "placeNamed n = \<lparr>title = Some (str ''Sagra''),
     location = Obj [(str ''@type'', Str (str ''Place'')), (str ''name'', Str (str n))],
     startDate = None, endDate = None, dates = Some []\<rparr>"

definition placeText :: "string \<Rightarrow> festival" where
  "placeText n = \<lparr>title = Some (str ''Sagra''), location = Str (str n),
     startDate = None, endDate = None, dates = Some []\<rparr>"

text \<open>
  \<open>extractCoordinates\<close> returns a pair only when the location is an object whose
  \<open>geo.latitude\<close> and \<open>geo.longitude\<close> are both present and neither is the number 0; when
  either is absent or 0 it returns \<open>null\<close>.
\<close>

lemma extractCoordinates_pair:
  "(extractCoordinates fd = Some (lat, lng) \<longrightarrow>
      isObject (location fd)
      \<and> lat = getProp (getProp (location fd) (str ''geo'')) (str ''latitude'')
      \<and> lng = getProp (getProp (location fd) (str ''geo'')) (str ''longitude'')
      \<and> lat \<noteq> Undefined \<and> lng \<noteq> Undefined \<and> lat \<noteq> Num (Fin 0) \<and> lng \<noteq> Num (Fin 0))
   \<and> (getProp (getProp (location fd) (str ''geo'')) (str ''latitude'') \<in> {Undefined, Num (Fin 0)}
        \<or> getProp (getProp (location fd) (str ''geo'')) (str ''longitude'') \<in> {Undefined, Num (Fin 0)}
       \<longrightarrow> extractCoordinates fd = None)"
proof -
  have g: "\<And>v k. optProp v k = getProp v k"
    by (simp add: optProp_def split: jsval.splits)
  show ?thesis
    by (auto simp: extractCoordinates_def g Let_def split: if_splits)
qed

text \<open>
  Whenever the location is an object or an array and \<open>extractCoordinates\<close> has no pair
  for it, \<open>transformToStrapiFormat\<close> returns \<open>null\<close> and nothing is sent to the geocoding
  service, whatever the service would answer. A location that is a text is geocoded.
\<close>

lemma transformToStrapiFormat_object_location:
  assumes "location fd = Obj kv \<or> location fd = Arr xs" and "extractCoordinates fd = None"
  shows "transformToStrapiFormat service fd = (None, [])"
  using assms by (auto simp: transformToStrapiFormat_def geocodeLocation_def)

lemma transformToStrapiFormat_text_location:
  assumes "location fd = Str s" and "trim s \<noteq> []"
  shows "transformToStrapiFormat service fd = (service s, [s])"
  using assms by (simp add: transformToStrapiFormat_def geocodeLocation_def extractCoordinates_def)

text \<open>
  Claim C10 (the code departs from it). The claim: when either coordinate is absent or
  0, \<open>extractCoordinates\<close> returns \<open>null\<close> and the caller falls back to the geocoding
  service. The code: \<open>extractCoordinates\<close> does return \<open>null\<close>, and the caller hands the
  location object itself to \<open>geocodeLocation\<close>, which throws on it before any request:
  for a place on the equator, and for a place without coordinates, the result is \<open>null\<close>
  and nothing was sent, although the service would have answered. The file's own
  \<open>getLocationString\<close>, which turns the location object into a text for geocoding, is
  not called. A location given as text is geocoded.
\<close>

theorem transformToStrapiFormat_no_geocoding_fallback:
  "extractCoordinates (placeAt (Num (Fin 0)) (Num (Fin (-157/2)))) = None
   \<and> transformToStrapiFormat (\<lambda>s. Some (Num (Fin 1), Num (Fin 2)))
        (placeAt (Num (Fin 0)) (Num (Fin (-157/2)))) = (None, [])
   \<and> extractCoordinates (placeNamed ''Imola'') = None
   \<and> transformToStrapiFormat (\<lambda>s. Some (Num (Fin 1), Num (Fin 2))) (placeNamed ''Imola'')
        = (None, [])
   \<and> transformToStrapiFormat (\<lambda>s. Some (Num (Fin 1), Num (Fin 2))) (placeText ''Imola'')
        = (Some (Num (Fin 1), Num (Fin 2)), [str ''Imola''])
   \<and> transformToStrapiFormat (\<lambda>s. None) (placeAt (Num (Fin (-1/5))) (Num (Fin (-157/2))))
        = (Some (Num (Fin (-1/5)), Num (Fin (-157/2))), [])"
  by (simp add: transformToStrapiFormat_def geocodeLocation_def extractCoordinates_def
      placeAt_def placeNamed_def placeText_def optProp_def str_def trim_def trimStart_def
      trimEnd_def isSpace_def)

section \<open>The detail handlers\<close>

text \<open>
  A handler is modelled by the checks it runs, in order, and by what it emits. Its
  trace lists the temporal filter, the duplicate detector and the validator with their
  answers, \<open>pushData\<close> with the record, and a throw. What the page yields (title, date
  text, location text) and the schema's verdict on the finished record (which rests on
  fields this embedding does not hold, such as \<open>url\<close>) are parameters. The clock is read
  once.
\<close>

datatype event =
    TemporalFilter bool
  | DuplicateDetector bool
  | Validator bool
  | PushData festival
  | Throw error

definition assignParsed :: "festival \<Rightarrow> parsedDates \<Rightarrow> festival" where
  "assignParsed fd pd =
     fd\<lparr>startDate := (case pStartDate pd of Some x \<Rightarrow> Some x | None \<Rightarrow> startDate fd),
        endDate := (case pEndDate pd of Some x \<Rightarrow> Some x | None \<Rightarrow> endDate fd)\<rparr>"

text \<open>
  The tail shared by the two handlers of \<open>websites/\<close>: the temporal filter on the record
  as it stands after date parsing, then the location, the duplicate detector, the
  validator, \<open>pushData\<close>.
\<close>

definition checkAndEmit ::
  "host \<Rightarrow> int \<Rightarrow> jsstring set \<Rightarrow> festival \<Rightarrow> jsstring \<Rightarrow> bool
     \<Rightarrow> event list \<times> jsstring set" where
  "checkAndEmit h now seen fd locationText schemaOk =
     (if isFestivalPast h now fd then ([TemporalFilter True], seen)
      else
        let fd' = fd\<lparr>location := Str locationText\<rparr>;
            dup = isDuplicate h seen fd'
        in if fst dup then ([TemporalFilter False, DuplicateDetector True], snd dup)
           else if \<not> schemaOk then
             ([TemporalFilter False, DuplicateDetector False, Validator False,
               Throw ValidationError], snd dup)
           else
             ([TemporalFilter False, DuplicateDetector False, Validator True, PushData fd'],
              snd dup))"

text \<open>\<open>assosagre-detail\<close> of \<open>websites/assosagre/routes.ts\<close>.\<close>

definition assosagreDetail ::
  "host \<Rightarrow> int \<Rightarrow> jsstring set \<Rightarrow> jsstring \<Rightarrow> jsstring \<Rightarrow> jsstring \<Rightarrow> bool
     \<Rightarrow> event list \<times> jsstring set" where
  "assosagreDetail h now seen pageTitle sagradateText locationText schemaOk =
     (let fd = \<lparr>title = Some pageTitle, location = Undefined, startDate = None, endDate = None,
                dates = Some (if sagradateText \<noteq> [] then [sagradateText] else [])\<rparr>
      in if sagradateText \<noteq> [] then
           (case parseSagradateText (tzOffset h) now sagradateText of
              Inl e \<Rightarrow> ([Throw e], seen)
            | Inr pd \<Rightarrow> checkAndEmit h now seen (assignParsed fd pd) locationText schemaOk)
         else checkAndEmit h now seen fd locationText schemaOk)"

text \<open>
  \<open>viviromagna-detail\<close>: no title, no record. The period parser of that file is not
  embedded; what it returns for the period text is a parameter.
\<close>

definition viviromagnaDetail ::
  "host \<Rightarrow> int \<Rightarrow> jsstring set \<Rightarrow> jsstring \<Rightarrow> jsstring \<Rightarrow> (error + parsedDates)
     \<Rightarrow> jsstring \<Rightarrow> bool \<Rightarrow> event list \<times> jsstring set" where
  "viviromagnaDetail h now seen pageTitle dateText parsed locationText schemaOk =
     (if pageTitle = [] then ([], seen)
      else
        let fd = \<lparr>title = Some pageTitle, location = Undefined, startDate = None, endDate = None,
                  dates = None\<rparr>
        in if dateText \<noteq> [] then
             (case parsed of
                Inl e \<Rightarrow> ([Throw e], seen)
              | Inr pd \<Rightarrow>
                  checkAndEmit h now seen ((assignParsed fd pd)\<lparr>dates := Some [dateText]\<rparr>)
                    locationText schemaOk)
           else checkAndEmit h now seen fd locationText schemaOk)"






text \<open>A process run, as far as the seen-set goes: calls of \<open>isDuplicate\<close>, one after another.\<close>

primrec runCalls :: "host \<Rightarrow> jsstring set \<Rightarrow> festival list \<Rightarrow> jsstring set" where
  "runCalls h seen [] = seen"
| "runCalls h seen (fd # fds) = runCalls h (snd (isDuplicate h seen fd)) fds"

lemma isDuplicate_keeps: "seen \<subseteq> snd (isDuplicate h seen fd)"
  by (auto simp: isDuplicate_def Let_def)

lemma runCalls_keeps: "seen \<subseteq> runCalls h seen fds"
proof (induction fds arbitrary: seen)
  case Nil
  show ?case by simp
next
  case (Cons fd fds)
  have "seen \<subseteq> snd (isDuplicate h seen fd)" by (rule isDuplicate_keeps)
  also have "\<dots> \<subseteq> runCalls h (snd (isDuplicate h seen fd)) fds" by (rule Cons.IH)
  finally show ?case by simp
qed

lemma checkAndEmit_order:
  assumes "PushData x \<in> set (fst (checkAndEmit h now seen fd loc ok))"
  shows "fst (checkAndEmit h now seen fd loc ok)
           = [TemporalFilter False, DuplicateDetector False, Validator True, PushData x]
         \<and> x = fd\<lparr>location := Str loc\<rparr> \<and> \<not> isFestivalPast h now fd
         \<and> \<not> fst (isDuplicate h seen x) \<and> ok"
  using assms by (auto simp: checkAndEmit_def Let_def split: if_splits)

lemma assosagreDetail_order:
  assumes "PushData x \<in> set (fst (assosagreDetail h now seen t d loc ok))"
  shows "fst (assosagreDetail h now seen t d loc ok)
           = [TemporalFilter False, DuplicateDetector False, Validator True, PushData x]"
  using assms checkAndEmit_order
  by (auto simp: assosagreDetail_def Let_def split: if_splits sum.splits)

lemma viviromagnaDetail_order:
  assumes "PushData x \<in> set (fst (viviromagnaDetail h now seen t d parsed loc ok))"
  shows "fst (viviromagnaDetail h now seen t d parsed loc ok)
           = [TemporalFilter False, DuplicateDetector False, Validator True, PushData x]"
  using assms checkAndEmit_order
  by (auto simp: viviromagnaDetail_def Let_def split: if_splits sum.splits)







text \<open>
  Claim C9. Once \<open>isDuplicate\<close> has answered false for a record, every later call with a
  record of the same key answers true, whatever calls lie in between: \<open>isDuplicate\<close>
  only adds keys, and only \<open>clearDuplicateCache\<close> empties the set. The handler calls
  \<open>isDuplicate\<close> before the validator, so the set it leaves does not depend on the
  validator: after a run that threw the validation error, the same page is skipped as
  a duplicate.
\<close>

theorem seen_key_stays:
  "(\<not> fst (isDuplicate h seen fd) \<and> generateFestivalKey h fd' = generateFestivalKey h fd
      \<longrightarrow> fst (isDuplicate h (runCalls h (snd (isDuplicate h seen fd)) later) fd'))
   \<and> seen \<subseteq> snd (isDuplicate h seen fd)
   \<and> seen \<subseteq> runCalls h seen later
   \<and> snd (assosagreDetail h now seen t d loc False) = snd (assosagreDetail h now seen t d loc True)
   \<and> (fst (assosagreDetail h now seen t d loc False)
         = [TemporalFilter False, DuplicateDetector False, Validator False, Throw ValidationError]
      \<longrightarrow> fst (assosagreDetail h now (snd (assosagreDetail h now seen t d loc False)) t d loc True)
         = [TemporalFilter False, DuplicateDetector True])
   \<and> clearDuplicateCache seen = {}"
proof -
  have 1: "\<not> fst (isDuplicate h seen fd) \<and> generateFestivalKey h fd' = generateFestivalKey h fd
      \<longrightarrow> fst (isDuplicate h (runCalls h (snd (isDuplicate h seen fd)) later) fd')"
  proof (intro impI)
    assume a: "\<not> fst (isDuplicate h seen fd) \<and> generateFestivalKey h fd' = generateFestivalKey h fd"
    have "generateFestivalKey h fd \<in> snd (isDuplicate h seen fd)"
      by (simp add: isDuplicate_def Let_def)
    with runCalls_keeps have "generateFestivalKey h fd \<in> runCalls h (snd (isDuplicate h seen fd)) later"
      by blast
    with a show "fst (isDuplicate h (runCalls h (snd (isDuplicate h seen fd)) later) fd')"
      by (simp add: isDuplicate_def Let_def)
  qed
  have 4: "snd (assosagreDetail h now seen t d loc False) = snd (assosagreDetail h now seen t d loc True)"
    by (simp add: assosagreDetail_def checkAndEmit_def Let_def split: sum.splits)
  have 5: "fst (assosagreDetail h now seen t d loc False)
         = [TemporalFilter False, DuplicateDetector False, Validator False, Throw ValidationError]
      \<longrightarrow> fst (assosagreDetail h now (snd (assosagreDetail h now seen t d loc False)) t d loc True)
         = [TemporalFilter False, DuplicateDetector True]"
    by (auto simp: assosagreDetail_def checkAndEmit_def isDuplicate_def Let_def
        split: sum.splits if_splits)
  from 1 4 5 isDuplicate_keeps runCalls_keeps show ?thesis
    by (simp add: clearDuplicateCache_def)
qed

theorem seen_key_stays_witness:
  "fst (isDuplicate (sampleHost 3600000)
          (runCalls (sampleHost 3600000)
             (snd (isDuplicate (sampleHost 3600000) {} (tortello ''Sagra del Tortello'' ''Imola'')))
             [tortello ''Sagra della Castagna'' ''Marradi''])
          (tortello ''sagra del tortello'' ''IMOLA''))
   \<and> fst (assosagreDetail (sampleHost 3600000) 1762167600000 {} (str ''Sagra del Tortello'')
             (str ''7-8 Novembre 2025'') (str ''Imola'') False)
       = [TemporalFilter False, DuplicateDetector False, Validator False, Throw ValidationError]
   \<and> fst (assosagreDetail (sampleHost 3600000) 1762167600000
             (snd (assosagreDetail (sampleHost 3600000) 1762167600000 {} (str ''Sagra del Tortello'')
                     (str ''7-8 Novembre 2025'') (str ''Imola'') False))
             (str ''Sagra del Tortello'') (str ''7-8 Novembre 2025'') (str ''Imola'') True)
       = [TemporalFilter False, DuplicateDetector True]"
proof -
  let ?h = "sampleHost 3600000"
  let ?a = "tortello ''Sagra del Tortello'' ''Imola''"
  let ?b = "tortello ''sagra del tortello'' ''IMOLA''"
  have fresh: "\<not> fst (isDuplicate ?h {} ?a)"
    by (simp add: isDuplicate_def Let_def)
  have ka: "generateFestivalKey ?h ?a = str ''sagra del tortello|imola|10-2025''"
    by code_simp
  have kb: "generateFestivalKey ?h ?b = str ''sagra del tortello|imola|10-2025''"
    by code_simp
  have same: "generateFestivalKey ?h ?b = generateFestivalKey ?h ?a"
    by (simp only: ka kb)
  have thrown: "fst (assosagreDetail ?h 1762167600000 {} (str ''Sagra del Tortello'')
             (str ''7-8 Novembre 2025'') (str ''Imola'') False)
       = [TemporalFilter False, DuplicateDetector False, Validator False, Throw ValidationError]"
    by code_simp
  note T1 = seen_key_stays[of ?h "{}" ?a ?b "[tortello ''Sagra della Castagna'' ''Marradi'']"]
  note T2 = seen_key_stays[of ?h "{}" ?a ?b "[]" 1762167600000 "str ''Sagra del Tortello''"
      "str ''7-8 Novembre 2025''" "str ''Imola''"]
  from T1 fresh same have 1: "fst (isDuplicate ?h
          (runCalls ?h (snd (isDuplicate ?h {} ?a)) [tortello ''Sagra della Castagna'' ''Marradi''])
          ?b)"
    by blast
  from T2 thrown have 2: "fst (assosagreDetail ?h 1762167600000
             (snd (assosagreDetail ?h 1762167600000 {} (str ''Sagra del Tortello'')
                     (str ''7-8 Novembre 2025'') (str ''Imola'') False))
             (str ''Sagra del Tortello'') (str ''7-8 Novembre 2025'') (str ''Imola'') True)
       = [TemporalFilter False, DuplicateDetector True]"
    by blast
  from 1 thrown 2 show ?thesis by blast
qed

section \<open>The range-splitting parser: the two documented examples\<close>

text \<open>
  \<open>new Date(y, m, d)\<close> is a local midnight and \<open>toISOString\<close> prints UTC. East of UTC the
  local midnight of a day lies in the UTC day before; at UTC and west of it (up to a
  day) it lies in the same UTC day.
\<close>

lemma local_midnight_utc_day:
  "(0 < tz \<and> tz \<le> msPerDay \<longrightarrow> (d * msPerDay - tz) div msPerDay = d - 1)
   \<and> (- msPerDay < tz \<and> tz \<le> 0 \<longrightarrow> (d * msPerDay - tz) div msPerDay = d)"
proof -
  have a: "0 < tz \<and> tz \<le> 86400000 \<longrightarrow> (d * 86400000 - tz) div 86400000 = d - 1"
  proof
    assume h: "0 < tz \<and> tz \<le> 86400000"
    have "d * 86400000 - tz = 86400000 * (d - 1) + (86400000 - tz)" by (simp add: algebra_simps)
    moreover from h have "0 \<le> 86400000 - tz" and "86400000 - tz < 86400000" by simp_all
    ultimately show "(d * 86400000 - tz) div 86400000 = d - 1"
      by (rule int_div_pos_eq)
  qed
  have b: "- 86400000 < tz \<and> tz \<le> 0 \<longrightarrow> (d * 86400000 - tz) div 86400000 = d"
  proof
    assume h: "- 86400000 < tz \<and> tz \<le> 0"
    have "d * 86400000 - tz = 86400000 * d + (- tz)" by simp
    moreover from h have "0 \<le> - tz" and "- tz < 86400000" by simp_all
    ultimately show "(d * 86400000 - tz) div 86400000 = d"
      by (rule int_div_pos_eq)
  qed
  from a b show ?thesis by (simp add: msPerDay_def)
qed

text \<open>On a host at UTC the two examples come out as documented.\<close>

lemma parseSagradateText_examples_at_utc:
  "parseSagradateText 0 1762167600000 (str ''7-8-14-15 Novembre 2025'')
     = Inr \<lparr>pStartDate = Some (str ''2025-11-07''), pEndDate = Some (str ''2025-11-15'')\<rparr>
   \<and> parseSagradateText 0 1762167600000 (str ''31 Ottobre 1-2 Novembre 2025'')
     = Inr \<lparr>pStartDate = Some (str ''2025-10-31''), pEndDate = Some (str ''2025-11-02'')\<rparr>"
  by code_simp

text \<open>
  Claim C6 (the code departs from it). The claim: \<open>"7-8-14-15 Novembre 2025"\<close> gives
  7 November 2025 to 15 November 2025, and \<open>"31 Ottobre 1-2 Novembre 2025"\<close> gives
  31 October 2025 to 2 November 2025. The code, on a host one hour east of UTC: each
  date is the day before.
\<close>

theorem parseSagradateText_examples_in_rome:
  "parseSagradateText 3600000 1762167600000 (str ''7-8-14-15 Novembre 2025'')
     = Inr \<lparr>pStartDate = Some (str ''2025-11-06''), pEndDate = Some (str ''2025-11-14'')\<rparr>
   \<and> parseSagradateText 3600000 1762167600000 (str ''31 Ottobre 1-2 Novembre 2025'')
     = Inr \<lparr>pStartDate = Some (str ''2025-10-30''), pEndDate = Some (str ''2025-11-01'')\<rparr>"
  by code_simp

section \<open>Facts about the matcher\<close>

text \<open>
  \<open>run P s i\<close> is the length of the longest run of code units with \<open>P\<close> that starts at
  index \<open>i\<close>. A greedy star or plus over a class offers every prefix of that run, the
  longest first; \<open>runEnds i n\<close> is that list of end indices, \<open>i + n\<close> down to \<open>i\<close>.
\<close>

definition run :: "(int \<Rightarrow> bool) \<Rightarrow> jsstring \<Rightarrow> nat \<Rightarrow> nat" where
  "run P s i = length (takeWhile P (drop i s))"

primrec runEnds :: "nat \<Rightarrow> nat \<Rightarrow> nat list" where
  "runEnds i 0 = [i]"
| "runEnds i (Suc n) = (i + Suc n) # runEnds i n"

lemma run_unfold:
  "run P s i = (if i < length s \<and> P (s ! i) then Suc (run P s (Suc i)) else 0)"
proof (cases "i < length s")
  case True
  then have "drop i s = s ! i # drop (Suc i) s" by (simp add: Cons_nth_drop_Suc)
  then show ?thesis using True by (simp add: run_def)
next
  case False
  then show ?thesis by (simp add: run_def)
qed


lemma run_inside: "k < run P s i \<Longrightarrow> i + k < length s \<and> P (s ! (i + k))"
proof -
  assume k: "k < run P s i"
  then have k': "k < length (takeWhile P (drop i s))" by (simp add: run_def)
  have "length (takeWhile P (drop i s)) \<le> length (drop i s)" by (rule length_takeWhile_le)
  with k' have lt: "i + k < length s" by simp
  from k' have "P (takeWhile P (drop i s) ! k)" by (metis nth_mem set_takeWhileD)
  moreover from k' have "takeWhile P (drop i s) ! k = drop i s ! k" by (rule takeWhile_nth)
  ultimately show ?thesis using lt by simp
qed

lemma run_stop: "i + run P s i < length s \<Longrightarrow> \<not> P (s ! (i + run P s i))"
proof -
  assume lt: "i + run P s i < length s"
  then have "run P s i < length (drop i s)" by simp
  then have "\<not> P (drop i s ! run P s i)" unfolding run_def by (rule nth_length_takeWhile)
  with lt show ?thesis by simp
qed

lemma runEnds_shift: "runEnds (Suc i) n @ [i] = runEnds i (Suc n)"
  by (induction n) simp_all

lemma set_runEnds: "set (runEnds i n) = {i .. i + n}"
  by (induction n) auto

lemma ms_Cls:
  "ms (Cls P) s (i, c) = (if i < length s \<and> P (s ! i) then [(Suc i, c)] else [])"
  by simp

lemma ms_Star_Cls:
  "ms (Star (Cls P)) s (i, c) = map (\<lambda>j. (j, c)) (runEnds i (run P s i))"
proof (induction "run P s i" arbitrary: i)
  case 0
  then have "\<not> (i < length s \<and> P (s ! i))" by (subst (asm) run_unfold) (simp split: if_splits)
  then have "ms (Cls P) s (i, c) = []" by simp
  then show ?case using 0 by (subst ms_Star) simp
next
  case (Suc n)
  from Suc.hyps(2) have ok: "i < length s \<and> P (s ! i)" and n: "n = run P s (Suc i)"
    by (subst (asm) run_unfold, simp split: if_splits)+
  from ok have "ms (Cls P) s (i, c) = [(Suc i, c)]" by simp
  then have "ms (Star (Cls P)) s (i, c) = ms (Star (Cls P)) s (Suc i, c) @ [(i, c)]"
    using ok by (subst ms_Star) simp
  also have "ms (Star (Cls P)) s (Suc i, c) = map (\<lambda>j. (j, c)) (runEnds (Suc i) n)"
    using Suc.hyps(1)[OF n] n by simp
  also have "map (\<lambda>j. (j, c)) (runEnds (Suc i) n) @ [(i, c)]
      = map (\<lambda>j. (j, c)) (runEnds (Suc i) n @ [i])" by simp
  also have "\<dots> = map (\<lambda>j. (j, c)) (runEnds i (Suc n))" by (simp only: runEnds_shift)
  finally show ?case using Suc.hyps(2) by simp
qed

lemma ms_Plus_Cls:
  "ms (Plus (Cls P)) s (i, c)
     = (if i < length s \<and> P (s ! i) then map (\<lambda>j. (j, c)) (runEnds (Suc i) (run P s (Suc i))) else [])"
proof (cases "i < length s \<and> P (s ! i)")
  case True
  then show ?thesis by (simp add: Plus_def ms_Star_Cls)
next
  case False
  then have "ms (Cls P) s (i, c) = []" by auto
  then have "ms (Plus (Cls P)) s (i, c) = []" by (simp add: Plus_def)
  with False show ?thesis by (simp only: if_False)
qed

text \<open>
  When what follows a plus cannot start on a code unit of the class, only the longest
  run survives: the shorter prefixes leave the next pattern on a code unit of the class.
\<close>

lemma concat_map_runEnds:
  assumes "\<And>j. i \<le> j \<Longrightarrow> j < i + n \<Longrightarrow> f (j, c) = []"
  shows "concat (map f (map (\<lambda>j. (j, c)) (runEnds i n))) = f (i + n, c)"
  using assms
proof (induction n)
  case 0
  show ?case by simp
next
  case (Suc n)
  have "concat (map f (map (\<lambda>j. (j, c)) (runEnds i n))) = f (i + n, c)"
    using Suc.prems by (intro Suc.IH) simp
  moreover have "f (i + n, c) = []" using Suc.prems[of "i + n"] by simp
  ultimately show ?case by simp
qed

lemma ms_Plus_Cls_then:
  assumes "\<And>j c'. j < length s \<Longrightarrow> P (s ! j) \<Longrightarrow> ms r s (j, c') = []"
  shows "ms (Seq (Plus (Cls P)) r) s (i, c)
     = (if i < length s \<and> P (s ! i) then ms r s (i + run P s i, c) else [])"
proof (cases "i < length s \<and> P (s ! i)")
  case False
  then have "ms (Plus (Cls P)) s (i, c) = []" by (simp only: ms_Plus_Cls if_False)
  then have "ms (Seq (Plus (Cls P)) r) s (i, c) = []" by simp
  with False show ?thesis by (simp only: if_False)
next
  case True
  have inside: "\<And>j. Suc i \<le> j \<Longrightarrow> j < Suc i + run P s (Suc i) \<Longrightarrow> ms r s (j, c) = []"
  proof -
    fix j assume a: "Suc i \<le> j" "j < Suc i + run P s (Suc i)"
    then have "j - Suc i < run P s (Suc i)" by simp
    from run_inside[OF this] a have "j < length s \<and> P (s ! j)" by simp
    then show "ms r s (j, c) = []" using assms by simp
  qed
  have r: "run P s i = Suc (run P s (Suc i))" using True by (subst run_unfold) simp
  have "ms (Seq (Plus (Cls P)) r) s (i, c)
      = concat (map (ms r s) (map (\<lambda>j. (j, c)) (runEnds (Suc i) (run P s (Suc i)))))"
    using True by (simp add: ms_Plus_Cls)
  also have "\<dots> = ms r s (Suc i + run P s (Suc i), c)"
    by (rule concat_map_runEnds) (rule inside)
  finally show ?thesis using True r by simp
qed

lemma concat_map_runEnds_gen:
  assumes "\<And>j. i \<le> j \<Longrightarrow> j < i + n \<Longrightarrow> f (g j) = []"
  shows "concat (map f (map g (runEnds i n))) = f (g (i + n))"
  using assms
proof (induction n)
  case 0
  show ?case by simp
next
  case (Suc n)
  have "concat (map f (map g (runEnds i n))) = f (g (i + n))"
    using Suc.prems by (intro Suc.IH) simp
  moreover have "f (g (i + n)) = []" using Suc.prems[of "i + n"] by simp
  ultimately show ?case by simp
qed

lemma ms_Group_Plus_Cls_then:
  assumes "\<And>j c'. j < length s \<Longrightarrow> P (s ! j) \<Longrightarrow> ms r s (j, c') = []"
  shows "ms (Seq (Group (Plus (Cls P))) r) s (i, c)
     = (if i < length s \<and> P (s ! i) then ms r s (i + run P s i, c @ [(i, i + run P s i)]) else [])"
proof (cases "i < length s \<and> P (s ! i)")
  case False
  then have "ms (Plus (Cls P)) s (i, c) = []" by (simp only: ms_Plus_Cls if_False)
  then have "ms (Seq (Group (Plus (Cls P))) r) s (i, c) = []" by simp
  with False show ?thesis by (simp only: if_False)
next
  case True
  let ?g = "\<lambda>j. (j, c @ [(i, j)])"
  have inside: "\<And>j. Suc i \<le> j \<Longrightarrow> j < Suc i + run P s (Suc i) \<Longrightarrow> ms r s (?g j) = []"
  proof -
    fix j assume a: "Suc i \<le> j" "j < Suc i + run P s (Suc i)"
    then have "j - Suc i < run P s (Suc i)" by simp
    from run_inside[OF this] a have "j < length s \<and> P (s ! j)" by simp
    then show "ms r s (?g j) = []" using assms by simp
  qed
  have r: "run P s i = Suc (run P s (Suc i))" using True by (subst run_unfold) simp
  have "ms (Group (Plus (Cls P))) s (i, c) = map ?g (runEnds (Suc i) (run P s (Suc i)))"
    using True by (simp add: ms_Plus_Cls o_def)
  then have "ms (Seq (Group (Plus (Cls P))) r) s (i, c)
      = concat (map (ms r s) (map ?g (runEnds (Suc i) (run P s (Suc i)))))"
    by simp
  also have "\<dots> = ms r s (?g (Suc i + run P s (Suc i)))"
    by (rule concat_map_runEnds_gen) (rule inside)
  finally show ?thesis using True r by simp
qed

text \<open>The three classes of the date pattern are pairwise disjoint.\<close>

lemma space_not_digit: "isSpace x \<Longrightarrow> \<not> isDigit x"
  and space_not_letter: "isSpace x \<Longrightarrow> \<not> isMonthLetter x"
  and letter_not_space: "isMonthLetter x \<Longrightarrow> \<not> isSpace x"
  and letter_not_digit: "isMonthLetter x \<Longrightarrow> \<not> isDigit x"
  and digit_not_space: "isDigit x \<Longrightarrow> \<not> isSpace x"
  and digit_not_letter: "isDigit x \<Longrightarrow> \<not> isMonthLetter x"
  by (auto simp: isSpace_def isDigit_def isMonthLetter_def)

text \<open>
  The date pattern at a fixed index, in closed form: one or two digits (two when the
  next code unit is a digit), the whole run of white space, the whole run of letters,
  the whole run of white space, four digits. There is at most one way to match.
\<close>

definition dateMatchAt :: "jsstring \<Rightarrow> nat \<Rightarrow> rmatch option" where
  "dateMatchAt s i =
     (if i < length s \<and> isDigit (s ! i) then
        let a = (if Suc i < length s \<and> isDigit (s ! Suc i) then i + 2 else i + 1);
            b = a + run isSpace s a;
            c = b + run isMonthLetter s b;
            d = c + run isSpace s c
        in if a < b \<and> b < c \<and> c < d \<and> d + 4 \<le> length s
              \<and> isDigit (s ! d) \<and> isDigit (s ! (d + 1)) \<and> isDigit (s ! (d + 2))
              \<and> isDigit (s ! (d + 3))
           then Some (i, d + 4, [(i, a), (b, c), (d, d + 4)]) else None
      else None)"

definition fourDigitsAt :: "jsstring \<Rightarrow> nat \<Rightarrow> bool" where
  "fourDigitsAt s d = (d + 4 \<le> length s \<and> isDigit (s ! d) \<and> isDigit (s ! (d + 1))
     \<and> isDigit (s ! (d + 2)) \<and> isDigit (s ! (d + 3)))"

lemma ms_year:
  "ms (Group (Rep4 (Cls isDigit))) s (d, c)
     = (if fourDigitsAt s d then [(d + 4, c @ [(d, d + 4)])] else [])"
proof -
  have n: "d + 1 = Suc d" "d + 2 = Suc (Suc d)" "d + 3 = Suc (Suc (Suc d))"
    "d + 4 = Suc (Suc (Suc (Suc d)))" by simp_all
  show ?thesis unfolding Rep4_def fourDigitsAt_def n by auto
qed

lemma run_pos: "0 < run P s i \<longleftrightarrow> i < length s \<and> P (s ! i)"
  by (subst run_unfold) simp

lemma ms_tail2:
  "ms (Seq (Plus (Cls isSpace)) (Group (Rep4 (Cls isDigit)))) s (c, cap)
     = (if 0 < run isSpace s c \<and> fourDigitsAt s (c + run isSpace s c)
        then [(c + run isSpace s c + 4, cap @ [(c + run isSpace s c, c + run isSpace s c + 4)])]
        else [])"
proof -
  have fail: "\<And>j c'. j < length s \<Longrightarrow> isSpace (s ! j) \<Longrightarrow>
      ms (Group (Rep4 (Cls isDigit))) s (j, c') = []"
    by (simp add: ms_year fourDigitsAt_def space_not_digit del: ms.simps)
  have "ms (Seq (Plus (Cls isSpace)) (Group (Rep4 (Cls isDigit)))) s (c, cap)
     = (if c < length s \<and> isSpace (s ! c)
        then ms (Group (Rep4 (Cls isDigit))) s (c + run isSpace s c, cap) else [])"
    by (rule ms_Plus_Cls_then[OF fail])
  then show ?thesis by (simp add: ms_year run_pos del: ms.simps)
qed

lemma ms_tail1:
  "ms (Seq (Group (Plus (Cls isMonthLetter)))
         (Seq (Plus (Cls isSpace)) (Group (Rep4 (Cls isDigit))))) s (b, cap)
     = (let c = b + run isMonthLetter s b; d = c + run isSpace s c
        in if b < c \<and> c < d \<and> fourDigitsAt s d
           then [(d + 4, cap @ [(b, c), (d, d + 4)])] else [])"
proof -
  have fail: "\<And>j c'. j < length s \<Longrightarrow> isMonthLetter (s ! j) \<Longrightarrow>
      ms (Seq (Plus (Cls isSpace)) (Group (Rep4 (Cls isDigit)))) s (j, c') = []"
    by (simp add: ms_tail2 run_pos letter_not_space del: ms.simps)
  have "ms (Seq (Group (Plus (Cls isMonthLetter)))
         (Seq (Plus (Cls isSpace)) (Group (Rep4 (Cls isDigit))))) s (b, cap)
     = (if b < length s \<and> isMonthLetter (s ! b)
        then ms (Seq (Plus (Cls isSpace)) (Group (Rep4 (Cls isDigit)))) s
               (b + run isMonthLetter s b, cap @ [(b, b + run isMonthLetter s b)]) else [])"
    by (rule ms_Group_Plus_Cls_then[OF fail])
  then show ?thesis by (simp add: ms_tail2 run_pos Let_def del: ms.simps)
qed

lemma ms_tail0:
  "ms (Seq (Plus (Cls isSpace)) (Seq (Group (Plus (Cls isMonthLetter)))
         (Seq (Plus (Cls isSpace)) (Group (Rep4 (Cls isDigit)))))) s (a, cap)
     = (let b = a + run isSpace s a; c = b + run isMonthLetter s b; d = c + run isSpace s c
        in if a < b \<and> b < c \<and> c < d \<and> fourDigitsAt s d
           then [(d + 4, cap @ [(b, c), (d, d + 4)])] else [])"
proof -
  have fail: "\<And>j c'. j < length s \<Longrightarrow> isSpace (s ! j) \<Longrightarrow>
      ms (Seq (Group (Plus (Cls isMonthLetter)))
         (Seq (Plus (Cls isSpace)) (Group (Rep4 (Cls isDigit))))) s (j, c') = []"
    by (simp add: ms_tail1 run_pos space_not_letter Let_def del: ms.simps)
  have "ms (Seq (Plus (Cls isSpace)) (Seq (Group (Plus (Cls isMonthLetter)))
         (Seq (Plus (Cls isSpace)) (Group (Rep4 (Cls isDigit)))))) s (a, cap)
     = (if a < length s \<and> isSpace (s ! a)
        then ms (Seq (Group (Plus (Cls isMonthLetter)))
         (Seq (Plus (Cls isSpace)) (Group (Rep4 (Cls isDigit))))) s (a + run isSpace s a, cap)
        else [])"
    by (rule ms_Plus_Cls_then[OF fail])
  then show ?thesis by (simp add: ms_tail1 run_pos Let_def del: ms.simps)
qed

lemma ms_day:
  "ms (Group (Rep12 (Cls isDigit))) s (i, [])
     = (if i < length s \<and> isDigit (s ! i)
        then (if Suc i < length s \<and> isDigit (s ! Suc i) then [(i + 2, [(i, i + 2)])] else [])
             @ [(i + 1, [(i, i + 1)])]
        else [])"
  by (simp add: Rep12_def)

lemma matchAt_datePattern: "matchAt datePattern s i = dateMatchAt s i"
proof (cases "i < length s \<and> isDigit (s ! i)")
  case False
  then have "ms (Group (Rep12 (Cls isDigit))) s (i, []) = []"
    by (simp only: ms_day if_False)
  then have "ms datePattern s (i, []) = []"
    by (simp add: datePattern_def del: ms.simps(5))
  with False show ?thesis by (simp add: matchAt_def dateMatchAt_def)
next
  case True
  let ?tail = "Seq (Plus (Cls isSpace)) (Seq (Group (Plus (Cls isMonthLetter)))
         (Seq (Plus (Cls isSpace)) (Group (Rep4 (Cls isDigit)))))"
  have dp: "ms datePattern s (i, [])
      = concat (map (ms ?tail s) (ms (Group (Rep12 (Cls isDigit))) s (i, [])))"
    by (simp add: datePattern_def del: ms.simps(5))
  show ?thesis
  proof (cases "Suc i < length s \<and> isDigit (s ! Suc i)")
    case two: True
    then have "run isSpace s (Suc i) = 0"
      by (subst run_unfold) (simp add: digit_not_space)
    then have short: "ms ?tail s (i + 1, [(i, i + 1)]) = []"
      by (simp add: ms_tail0 Let_def del: ms.simps)
    have "ms datePattern s (i, []) = ms ?tail s (i + 2, [(i, i + 2)])"
      using True two short by (simp add: dp ms_day del: ms.simps)
    then show ?thesis using True two
      by (simp add: matchAt_def dateMatchAt_def ms_tail0 Let_def fourDigitsAt_def del: ms.simps)
  next
    case one: False
    have "ms (Group (Rep12 (Cls isDigit))) s (i, []) = [] @ [(i + 1, [(i, i + 1)])]"
      using True one by (simp only: ms_day if_True if_False simp_thms)
    then have "ms datePattern s (i, []) = ms ?tail s (i + 1, [(i, i + 1)])"
      by (simp add: dp del: ms.simps)
    then show ?thesis using True one
      by (auto simp: matchAt_def dateMatchAt_def ms_tail0 Let_def fourDigitsAt_def
          simp del: ms.simps)
  qed
qed

text \<open>Searching, when no index has a match, and when some index has one.\<close>

lemma search_None:
  "(\<And>j. matchAt r s j = None) \<Longrightarrow> search r s i = None"
proof (induction r s i rule: search.induct)
  case (1 r s i)
  show ?case
  proof (cases "length s < i")
    case True
    then show ?thesis by (simp add: search.simps[of r s i])
  next
    case False
    have "search r s (Suc i) = None"
      using "1.IH"[OF False "1.prems"(1)] "1.prems" by simp
    with False "1.prems"[of i] show ?thesis by (simp add: search.simps[of r s i])
  qed
qed

lemma matchAllFrom_None: "search r s i = None \<Longrightarrow> matchAllFrom r s i = []"
  by (simp add: matchAllFrom.simps[of r s i])

text \<open>A run of four digits somewhere in the text.\<close>

definition hasFourDigits :: "jsstring \<Rightarrow> bool" where
  "hasFourDigits s = list_ex (fourDigitsAt s) [0 ..< length s]"

lemma fourDigitsAt_has: "fourDigitsAt s d \<Longrightarrow> hasFourDigits s"
  by (auto simp: hasFourDigits_def list_ex_iff fourDigitsAt_def)

lemma has_fourDigitsAt: "hasFourDigits s \<Longrightarrow> \<exists>d. fourDigitsAt s d"
  by (auto simp: hasFourDigits_def list_ex_iff)

lemma isDigit_lowerUnit: "isDigit (lowerUnit x) = isDigit x"
  by (auto simp: isDigit_def lowerUnit_def)

lemma fourDigitsAt_toLowerCase: "fourDigitsAt (toLowerCase s) d = fourDigitsAt s d"
  by (auto simp: fourDigitsAt_def toLowerCase_def isDigit_lowerUnit)

lemma fourDigitsAt_drop: "fourDigitsAt (drop k s) d \<Longrightarrow> fourDigitsAt s (k + d)"
  by (auto simp: fourDigitsAt_def add.assoc)

lemma fourDigitsAt_take: "fourDigitsAt (take m s) d \<Longrightarrow> fourDigitsAt s d"
  by (auto simp: fourDigitsAt_def)

lemma trim_as_take_drop: "\<exists>k m. trim s = take m (drop k s)"
proof -
  have a: "trimStart s = drop (length (takeWhile isSpace s)) s"
    by (simp add: trimStart_def dropWhile_eq_drop)
  have b: "\<And>t. trimEnd t = take (length t - length (takeWhile isSpace (rev t))) t"
  proof -
    fix t :: jsstring
    have "rev (dropWhile isSpace (rev t)) = rev (drop (length (takeWhile isSpace (rev t))) (rev t))"
      by (simp add: dropWhile_eq_drop)
    also have "\<dots> = take (length t - length (takeWhile isSpace (rev t))) t"
      by (simp add: rev_drop)
    finally show "trimEnd t = take (length t - length (takeWhile isSpace (rev t))) t"
      by (simp add: trimEnd_def)
  qed
  show ?thesis unfolding trim_def a by (subst b) blast
qed

lemma hasFourDigits_normalized:
  assumes "hasFourDigits (trim (toLowerCase s))"
  shows "hasFourDigits s"
proof -
  from has_fourDigitsAt[OF assms] obtain d where d: "fourDigitsAt (trim (toLowerCase s)) d" ..
  from trim_as_take_drop obtain k m where "trim (toLowerCase s) = take m (drop k (toLowerCase s))"
    by blast
  with d have "fourDigitsAt (take m (drop k (toLowerCase s))) d" by simp
  then have "fourDigitsAt (drop k (toLowerCase s)) d" by (rule fourDigitsAt_take)
  then have "fourDigitsAt (toLowerCase s) (k + d)" by (rule fourDigitsAt_drop)
  then have "fourDigitsAt s (k + d)" by (simp only: fourDigitsAt_toLowerCase)
  then show ?thesis by (rule fourDigitsAt_has)
qed

lemma dateMatchAt_fourDigits: "dateMatchAt s i = Some m \<Longrightarrow> hasFourDigits s"
proof -
  assume "dateMatchAt s i = Some m"
  then obtain d where "fourDigitsAt s d"
    by (auto simp: dateMatchAt_def Let_def fourDigitsAt_def split: if_splits)
  then show ?thesis by (rule fourDigitsAt_has)
qed

text \<open>
  Claim C1 (corrected). The claim: a day and a month name with no four-digit year still
  parse, with the current year. The code: the pattern ends in \<open>\s+(\d{4})\<close>, so a text
  without four digits in a row has no match and \<open>parseItalianDate\<close> returns \<open>null\<close>: the
  year is required.
\<close>

theorem parseItalianDate_no_year_counterexample:
  "parseItalianDate 3600000 (str ''7 novembre'') = None"
  by code_simp

theorem parseItalianDate_needs_year:
  assumes "\<not> hasFourDigits dateStr"
  shows "parseItalianDate tz dateStr = None"
proof -
  let ?n = "trim (toLowerCase dateStr)"
  from assms have no: "\<not> hasFourDigits ?n" using hasFourDigits_normalized by blast
  have "\<And>j. matchAt datePattern ?n j = None"
  proof -
    fix j
    show "matchAt datePattern ?n j = None"
    proof (cases "dateMatchAt ?n j")
      case None
      then show ?thesis by (simp only: matchAt_datePattern)
    next
      case (Some m)
      from dateMatchAt_fourDigits[OF this] no show ?thesis by simp
    qed
  qed
  then have "search datePattern ?n 0 = None" by (rule search_None)
  then have "matchAll datePattern ?n = []" by (simp add: matchAll_def matchAllFrom_None)
  then show ?thesis by (simp add: parseItalianDate_def Let_def)
qed

theorem parseItalianDate_needs_year_witness:
  "\<not> hasFourDigits (str ''15 Agosto'') \<and> parseItalianDate 3600000 (str ''15 Agosto'') = None"
proof -
  have a: "\<not> hasFourDigits (str ''15 Agosto'')" by code_simp
  from parseItalianDate_needs_year[OF a, of 3600000] a show ?thesis by simp
qed

section \<open>The last match wins\<close>

text \<open>
  A full triple, as text: one or two digits, white space, letters of the class, white
  space, four digits.
\<close>

definition tripleText :: "jsstring \<Rightarrow> jsstring \<Rightarrow> jsstring \<Rightarrow> jsstring \<Rightarrow> jsstring \<Rightarrow> bool" where
  "tripleText d w1 m w2 y =
     (d \<noteq> [] \<and> length d \<le> 2 \<and> list_all isDigit d
      \<and> w1 \<noteq> [] \<and> list_all isSpace w1
      \<and> m \<noteq> [] \<and> list_all isMonthLetter m
      \<and> w2 \<noteq> [] \<and> list_all isSpace w2
      \<and> length y = 4 \<and> list_all isDigit y)"

lemma run_block:
  assumes "list_all P w" and "rest = [] \<or> \<not> P (hd rest)"
  shows "run P (xs @ w @ rest) (length xs) = length w"
proof -
  have "takeWhile P (w @ rest) = w @ takeWhile P rest"
    using assms(1) by (simp add: list_all_iff)
  moreover have "takeWhile P rest = []" using assms(2) by (cases rest) auto
  ultimately show ?thesis by (simp add: run_def)
qed

lemma fourDigitsAt_append:
  assumes "length y = 4" and "list_all isDigit y"
  shows "fourDigitsAt (xs @ y @ rest) (length xs)"
proof -
  from assms(1) obtain y1 y2 y3 y4 where y: "y = [y1, y2, y3, y4]"
    by (cases y; cases "tl y"; cases "tl (tl y)"; cases "tl (tl (tl y))") auto
  have n: "length xs + 1 = Suc (length xs)" "length xs + 2 = Suc (Suc (length xs))"
    "length xs + 3 = Suc (Suc (Suc (length xs)))" by simp_all
  show ?thesis using assms(2) unfolding y fourDigitsAt_def n
    by (simp add: nth_append)
qed

lemma dateMatchAt_triple:
  assumes t: "tripleText d w1 m w2 y"
  shows "dateMatchAt (pre @ d @ w1 @ m @ w2 @ y @ post) (length pre)
     = Some (length pre, length (pre @ d @ w1 @ m @ w2 @ y),
             [(length pre, length pre + length d),
              (length pre + length d + length w1, length pre + length d + length w1 + length m),
              (length pre + length d + length w1 + length m + length w2,
               length (pre @ d @ w1 @ m @ w2 @ y))])"
proof -
  let ?n = "pre @ d @ w1 @ m @ w2 @ y @ post"
  let ?p = "length pre"
  from t have d: "d \<noteq> []" "length d \<le> 2" "list_all isDigit d"
    and w1: "w1 \<noteq> []" "list_all isSpace w1"
    and m: "m \<noteq> []" "list_all isMonthLetter m"
    and w2: "w2 \<noteq> []" "list_all isSpace w2"
    and y: "length y = 4" "list_all isDigit y"
    by (simp_all add: tripleText_def)
  from w1 have hw1: "isSpace (hd w1)" by (cases w1) auto
  from m have hm: "isMonthLetter (hd m)" by (cases m) auto
  from w2 have hw2: "isSpace (hd w2)" by (cases w2) auto
  from y have hy: "y \<noteq> []" "isDigit (hd y)" by (cases y; auto)+
  have first: "?p < length ?n \<and> isDigit (?n ! ?p)"
    using d by (cases d) (auto simp: nth_append)
  have a: "(if Suc ?p < length ?n \<and> isDigit (?n ! Suc ?p) then ?p + 2 else ?p + 1)
      = ?p + length d"
  proof (cases d)
    case Nil
    with d show ?thesis by simp
  next
    case (Cons d1 d')
    show ?thesis
    proof (cases d')
      case Nil
      have "?n ! Suc ?p = hd w1" using w1 Cons Nil by (cases w1) (auto simp: nth_append)
      with hw1 digit_not_space have "\<not> isDigit (?n ! Suc ?p)" by auto
      then show ?thesis using Cons Nil by simp
    next
      case (Cons d2 d'')
      with d \<open>d = d1 # d'\<close> have dd: "d = [d1, d2]" by simp
      with d have "isDigit d2" by simp
      then show ?thesis using dd by (simp add: nth_append)
    qed
  qed
  have b: "run isSpace ?n (?p + length d) = length w1"
  proof -
    have "run isSpace ((pre @ d) @ w1 @ (m @ w2 @ y @ post)) (length (pre @ d)) = length w1"
      using w1 m hm letter_not_space by (intro run_block) auto
    then show ?thesis by simp
  qed
  have c: "run isMonthLetter ?n (?p + length d + length w1) = length m"
  proof -
    have "run isMonthLetter ((pre @ d @ w1) @ m @ (w2 @ y @ post)) (length (pre @ d @ w1)) = length m"
      using m w2 hw2 space_not_letter by (intro run_block) auto
    then show ?thesis by (simp add: add.assoc)
  qed
  have e: "run isSpace ?n (?p + length d + length w1 + length m) = length w2"
  proof -
    have "run isSpace ((pre @ d @ w1 @ m) @ w2 @ (y @ post)) (length (pre @ d @ w1 @ m)) = length w2"
      using w2 hy digit_not_space by (intro run_block) auto
    then show ?thesis by (simp add: add.assoc)
  qed
  have f: "fourDigitsAt ?n (?p + length d + length w1 + length m + length w2)"
  proof -
    have "fourDigitsAt ((pre @ d @ w1 @ m @ w2) @ y @ post) (length (pre @ d @ w1 @ m @ w2))"
      using y by (rule fourDigitsAt_append)
    then show ?thesis by (simp add: add.assoc)
  qed
  from d w1 m w2 have pos: "0 < length d" "0 < length w1" "0 < length m" "0 < length w2"
    by simp_all
  show ?thesis
    unfolding dateMatchAt_def
    apply (simp only: first if_True a Let_def b c e)
    using f pos y by (simp add: fourDigitsAt_def)
qed

text \<open>What a match of the date pattern looks like, block by block.\<close>

lemma dateMatchAt_blocks:
  assumes "dateMatchAt s p = Some (q, e, caps)"
  shows "\<exists>a b c dd. q = p \<and> p < a \<and> a < b \<and> b < c \<and> c < dd \<and> e = dd + 4 \<and> e \<le> length s
      \<and> caps = [(p, a), (b, c), (dd, e)]
      \<and> (\<forall>k. p \<le> k \<and> k < a \<longrightarrow> isDigit (s ! k))
      \<and> (\<forall>k. a \<le> k \<and> k < b \<longrightarrow> isSpace (s ! k))
      \<and> (\<forall>k. b \<le> k \<and> k < c \<longrightarrow> isMonthLetter (s ! k))
      \<and> (\<forall>k. c \<le> k \<and> k < dd \<longrightarrow> isSpace (s ! k))
      \<and> (\<forall>k. dd \<le> k \<and> k < e \<longrightarrow> isDigit (s ! k))"
proof -
  define a where "a = (if Suc p < length s \<and> isDigit (s ! Suc p) then p + 2 else p + 1)"
  define b where "b = a + run isSpace s a"
  define c where "c = b + run isMonthLetter s b"
  define dd where "dd = c + run isSpace s c"
  from assms have first: "p < length s \<and> isDigit (s ! p)"
    by (auto simp: dateMatchAt_def split: if_splits)
  from assms first have ok: "a < b \<and> b < c \<and> c < dd \<and> fourDigitsAt s dd"
    and res: "q = p \<and> e = dd + 4 \<and> caps = [(p, a), (b, c), (dd, dd + 4)]"
    unfolding dateMatchAt_def a_def b_def c_def dd_def Let_def fourDigitsAt_def
    by (auto split: if_splits)
  have digits1: "\<forall>k. p \<le> k \<and> k < a \<longrightarrow> isDigit (s ! k)"
  proof (intro allI impI)
    fix k assume k: "p \<le> k \<and> k < a"
    show "isDigit (s ! k)"
    proof (cases "k = p")
      case True
      with first show ?thesis by simp
    next
      case False
      with k have "k = Suc p \<and> a = p + 2" by (auto simp: a_def split: if_splits)
      then show ?thesis by (auto simp: a_def split: if_splits)
    qed
  qed
  have blk: "\<And>P x. \<forall>k. (x::nat) \<le> k \<and> k < x + run P s x \<longrightarrow> P (s ! k)"
  proof (intro allI impI)
    fix P :: "int \<Rightarrow> bool" and x k :: nat
    assume k: "x \<le> k \<and> k < x + run P s x"
    then have "k - x < run P s x" by arith
    from run_inside[OF this] k show "P (s ! k)" by simp
  qed
  have digits2: "\<forall>k. dd \<le> k \<and> k < dd + 4 \<longrightarrow> isDigit (s ! k)"
  proof (intro allI impI)
    fix k assume k: "dd \<le> k \<and> k < dd + 4"
    then have "k = dd \<or> k = dd + 1 \<or> k = dd + 2 \<or> k = dd + 3" by arith
    with ok show "isDigit (s ! k)" by (auto simp: fourDigitsAt_def)
  qed
  have pa: "p < a" by (simp add: a_def)
  from ok have len: "dd + 4 \<le> length s" by (simp add: fourDigitsAt_def)
  show ?thesis
    apply (rule exI[of _ a], rule exI[of _ b], rule exI[of _ c], rule exI[of _ dd])
    using res pa ok len digits1 digits2 blk[of a isSpace] blk[of b isMonthLetter] blk[of c isSpace]
    unfolding b_def[symmetric] c_def[symmetric] dd_def[symmetric]
    by simp
qed

text \<open>
  A match that starts before a triple whose day is not preceded by a digit ends before
  that triple: no match straddles its start.
\<close>

lemma no_straddle:
  assumes t: "tripleText d w1 m w2 y"
    and pre: "pre = [] \<or> \<not> isDigit (last pre)"
    and p: "p < length pre"
    and mt: "dateMatchAt (pre @ d @ w1 @ m @ w2 @ y @ post) p = Some (q, e, caps)"
  shows "e \<le> length pre"
proof (rule ccontr)
  assume "\<not> e \<le> length pre"
  then have over: "length pre < e" by simp
  let ?n = "pre @ d @ w1 @ m @ w2 @ y @ post"
  let ?p0 = "length pre"
  from dateMatchAt_blocks[OF mt] obtain a b c dd where
    B: "p < a" "a < b" "b < c" "c < dd" "e = dd + 4"
      "\<forall>k. p \<le> k \<and> k < a \<longrightarrow> isDigit (?n ! k)"
      "\<forall>k. a \<le> k \<and> k < b \<longrightarrow> isSpace (?n ! k)"
      "\<forall>k. b \<le> k \<and> k < c \<longrightarrow> isMonthLetter (?n ! k)"
      "\<forall>k. c \<le> k \<and> k < dd \<longrightarrow> isSpace (?n ! k)"
      "\<forall>k. dd \<le> k \<and> k < e \<longrightarrow> isDigit (?n ! k)"
    by blast
  from t have d: "d \<noteq> []" "length d \<le> 2" "list_all isDigit d" and w1: "w1 \<noteq> []" "list_all isSpace w1"
    by (simp_all add: tripleText_def)
  from p pre have ne: "pre \<noteq> []" and lastnd: "\<not> isDigit (last pre)" by auto
  have before: "\<not> isDigit (?n ! (?p0 - 1))"
  proof -
    from ne have "?n ! (?p0 - 1) = last pre" by (simp add: nth_append last_conv_nth)
    with lastnd show ?thesis by simp
  qed
  have at: "isDigit (?n ! ?p0)" using d by (cases d) (auto simp: nth_append)
  have after: "isSpace (?n ! (?p0 + length d))"
  proof -
    have "?n ! (?p0 + length d) = ((pre @ d) @ (w1 @ m @ w2 @ y @ post)) ! length (pre @ d)"
      by simp
    also have "\<dots> = hd w1" using w1 by (cases w1) auto
    finally show ?thesis using w1 by (cases w1) auto
  qed
  from p ne have p1: "p \<le> ?p0 - 1" by simp
  consider "?p0 < a" | "a \<le> ?p0 \<and> ?p0 < b" | "b \<le> ?p0 \<and> ?p0 < c" | "c \<le> ?p0 \<and> ?p0 < dd"
    | "dd < ?p0" | "?p0 = dd" using over B(5) by linarith
  then show False
  proof cases
    case 1
    with p1 have "p \<le> ?p0 - 1 \<and> ?p0 - 1 < a" by arith
    with B(6) before show False by blast
  next
    case 2
    with B(7) at digit_not_space show False by blast
  next
    case 3
    with B(8) at digit_not_letter show False by blast
  next
    case 4
    with B(9) at digit_not_space show False by blast
  next
    case 5
    with over B(5) have "dd \<le> ?p0 - 1 \<and> ?p0 - 1 < e" by arith
    with B(10) before show False by blast
  next
    case 6
    from d have "0 < length d \<and> length d \<le> 2" by simp
    with 6 B(5) have "dd \<le> ?p0 + length d \<and> ?p0 + length d < e" by arith
    with B(10) have "isDigit (?n ! (?p0 + length d))" by blast
    with after digit_not_space show False by blast
  qed
qed

lemma search_None_from:
  "(\<And>j. i \<le> j \<Longrightarrow> matchAt r s j = None) \<Longrightarrow> search r s i = None"
proof (induction r s i rule: search.induct)
  case (1 r s i)
  show ?case
  proof (cases "length s < i")
    case True
    then show ?thesis by (simp add: search.simps[of r s i])
  next
    case False
    have here: "matchAt r s i = None" using "1.prems"[of i] by simp
    have "search r s (Suc i) = None"
      using "1.IH"[OF False here] "1.prems" by simp
    with False here show ?thesis by (simp add: search.simps[of r s i])
  qed
qed

lemma search_finds:
  assumes "matchAt r s p0 = Some m0" and "i \<le> p0" and "p0 \<le> length s"
  shows "\<exists>q m. search r s i = Some m \<and> i \<le> q \<and> q \<le> p0 \<and> matchAt r s q = Some m"
  using assms
proof (induction "p0 - i" arbitrary: i)
  case 0
  then have "i = p0" by simp
  with 0 show ?case by (auto simp: search.simps[of r s p0])
next
  case (Suc n)
  then have lt: "i < p0" and le: "\<not> length s < i" by simp_all
  show ?case
  proof (cases "matchAt r s i")
    case (Some m)
    with le lt show ?thesis by (auto simp: search.simps[of r s i])
  next
    case None
    from Suc.hyps(2) lt have "n = p0 - Suc i" by simp
    from Suc.hyps(1)[OF this Suc.prems(1) _ Suc.prems(3)] lt
    obtain q m where qm: "search r s (Suc i) = Some m" "Suc i \<le> q" "q \<le> p0"
      "matchAt r s q = Some m"
      by auto
    from None le qm(1) have "search r s i = Some m" by (simp add: search.simps[of r s i])
    moreover from qm(2) have "i \<le> q" by simp
    ultimately show ?thesis using qm(3,4) by blast
  qed
qed

text \<open>
  In a text that holds a triple whose day is not preceded by a digit, with no match of
  the date pattern after the triple, the last match is that triple, wherever the search
  starts before it.
\<close>

lemma last_match_is_final_triple:
  assumes t: "tripleText d w1 m w2 y" and pre: "pre = [] \<or> \<not> isDigit (last pre)"
    and l: "l \<le> length pre"
    and after: "\<And>j. length (pre @ d @ w1 @ m @ w2 @ y) \<le> j \<Longrightarrow>
        matchAt datePattern (pre @ d @ w1 @ m @ w2 @ y @ post) j = None"
  shows "matchAllFrom datePattern (pre @ d @ w1 @ m @ w2 @ y @ post) l \<noteq> []
     \<and> last (matchAllFrom datePattern (pre @ d @ w1 @ m @ w2 @ y @ post) l)
       = (length pre, length (pre @ d @ w1 @ m @ w2 @ y),
             [(length pre, length pre + length d),
              (length pre + length d + length w1, length pre + length d + length w1 + length m),
              (length pre + length d + length w1 + length m + length w2,
               length (pre @ d @ w1 @ m @ w2 @ y))])"
    (is "?L l \<noteq> [] \<and> last (?L l) = ?M")
  using l
proof (induction "length pre - l" arbitrary: l rule: less_induct)
  case less
  let ?n = "pre @ d @ w1 @ m @ w2 @ y @ post"
  have M: "matchAt datePattern ?n (length pre) = Some ?M"
    by (simp only: matchAt_datePattern dateMatchAt_triple[OF t])
  have "length pre \<le> length ?n" by simp
  from search_finds[OF M less.prems this]
  obtain q mt where s: "search datePattern ?n l = Some mt" and q: "l \<le> q" "q \<le> length pre"
    and mq: "matchAt datePattern ?n q = Some mt" by blast
  obtain b e c where mt: "mt = (b, e, c)" by (cases mt) auto
  from mq mt have dm: "dateMatchAt ?n q = Some (b, e, c)" by (simp only: matchAt_datePattern)
  from dateMatchAt_blocks[OF dm] have be: "b = q" "q < e" by auto
  have unfold: "?L l = mt # ?L e"
    using s mt be by (simp add: matchAllFrom.simps[of datePattern ?n l])
  show ?case
  proof (cases "q = length pre")
    case True
    with mq M have mtM: "mt = ?M" by simp
    with mt have e: "e = length (pre @ d @ w1 @ m @ w2 @ y)" by simp
    have "search datePattern ?n (length (pre @ d @ w1 @ m @ w2 @ y)) = None"
      by (rule search_None_from) (rule after)
    then have "?L (length (pre @ d @ w1 @ m @ w2 @ y)) = []" by (rule matchAllFrom_None)
    with unfold e mtM show ?thesis by simp
  next
    case False
    with q have lt: "q < length pre" by simp
    from no_straddle[OF t pre lt dm] have e: "e \<le> length pre" .
    from q be have "length pre - e < length pre - l" using e lt by arith
    from less.hyps[OF this e] have "?L e \<noteq> [] \<and> last (?L e) = ?M" .
    with unfold show ?thesis by simp
  qed
qed

text \<open>Lower-casing and trimming leave the digits and the white space of a triple alone.\<close>

lemma lowerUnit_fixed: "isDigit x \<or> isSpace x \<Longrightarrow> lowerUnit x = x"
  by (auto simp: lowerUnit_def isDigit_def isSpace_def)

lemma toLowerCase_fixed: "list_all (\<lambda>x. isDigit x \<or> isSpace x) xs \<Longrightarrow> toLowerCase xs = xs"
  by (induction xs) (simp_all add: toLowerCase_def lowerUnit_fixed)

lemma toLowerCase_digits: "list_all isDigit xs \<Longrightarrow> toLowerCase xs = xs"
  by (rule toLowerCase_fixed) (simp add: list_all_iff)

lemma toLowerCase_spaces: "list_all isSpace xs \<Longrightarrow> toLowerCase xs = xs"
  by (rule toLowerCase_fixed) (simp add: list_all_iff)

lemma lowerUnit_idem: "lowerUnit (lowerUnit x) = lowerUnit x"
  by (auto simp: lowerUnit_def)

lemma toLowerCase_idem: "toLowerCase (toLowerCase xs) = toLowerCase xs"
  by (simp add: toLowerCase_def lowerUnit_idem)

lemma isMonthLetter_lowerUnit: "isMonthLetter x \<Longrightarrow> isMonthLetter (lowerUnit x)"
  by (auto simp: isMonthLetter_def lowerUnit_def)

lemma toLowerCase_letters: "list_all isMonthLetter xs \<Longrightarrow> list_all isMonthLetter (toLowerCase xs)"
  by (simp add: toLowerCase_def list_all_iff isMonthLetter_lowerUnit)

lemma toLowerCase_append: "toLowerCase (xs @ ys) = toLowerCase xs @ toLowerCase ys"
  by (simp add: toLowerCase_def)

lemma trimStart_append:
  assumes "ys \<noteq> []" and "\<not> isSpace (hd ys)"
  shows "trimStart (xs @ ys) = trimStart xs @ ys"
proof (cases "\<forall>x \<in> set xs. isSpace x")
  case True
  then have "dropWhile isSpace (xs @ ys) = dropWhile isSpace ys" by simp
  moreover have "dropWhile isSpace ys = ys" using assms by (cases ys) auto
  moreover have "dropWhile isSpace xs = []" using True by simp
  ultimately show ?thesis by (simp add: trimStart_def)
next
  case False
  then obtain x where "x \<in> set xs" "\<not> isSpace x" by blast
  then show ?thesis by (simp add: trimStart_def dropWhile_append1)
qed

lemma trimEnd_append:
  assumes "ys \<noteq> []" and "\<not> isSpace (last ys)"
  shows "trimEnd (xs @ ys) = xs @ ys"
proof -
  from assms(1) have ys: "ys = butlast ys @ [last ys]" by simp
  have "rev (xs @ ys) = rev (xs @ butlast ys @ [last ys])" by (subst ys) (rule refl)
  also have "\<dots> = last ys # rev (xs @ butlast ys)" by simp
  finally have r: "rev (xs @ ys) = last ys # rev (xs @ butlast ys)" .
  have "dropWhile isSpace (rev (xs @ ys)) = rev (xs @ ys)"
    unfolding r using assms(2) by simp
  then show ?thesis by (simp only: trimEnd_def rev_rev_ident)
qed

lemma trimStart_last:
  assumes "trimStart xs \<noteq> []"
  shows "last (trimStart xs) = last xs"
proof -
  have "xs = takeWhile isSpace xs @ trimStart xs" by (simp add: trimStart_def)
  then have "last xs = last (takeWhile isSpace xs @ trimStart xs)" by simp
  also have "\<dots> = last (trimStart xs)" using assms by simp
  finally show ?thesis by simp
qed

text \<open>The numbers and the month that \<open>dateOfMatch\<close> reads from the captures.\<close>

lemma parseInt_digits:
  assumes "ds \<noteq> []" and "list_all isDigit ds"
  shows "parseInt ds = Some (digitsValue ds)"
proof -
  from assms have h: "isDigit (hd ds)" by (cases ds) auto
  then have ns: "\<not> isSpace (hd ds)" by (rule digit_not_space)
  with assms(1) have t: "trimStart ds = ds" by (cases ds) (auto simp: trimStart_def)
  from h have sg: "hd ds \<noteq> 45 \<and> hd ds \<noteq> 43" by (auto simp: isDigit_def)
  from assms(2) have tw: "takeWhile isDigit ds = ds" by (simp add: list_all_iff)
  show ?thesis using assms(1) sg by (simp add: parseInt_def t tw Let_def)
qed

text \<open>
  A match of the date pattern at an index reads the text from that index on only, reads
  it up to the end of its year only, and does not tell a letter from its lower-case
  form. So a text without a match still has none behind any other text, lower-cased, or
  with its trailing white space cut.
\<close>

lemma search_None_every:
  assumes "search r s i = None" and "i \<le> j" and "j \<le> length s"
  shows "matchAt r s j = None"
  using assms
proof (induction "j - i" arbitrary: i)
  case 0
  then have "i = j" by simp
  with 0 show ?case by (simp add: search.simps[of r s j] split: option.splits)
next
  case (Suc n)
  then have le: "\<not> length s < i" and lt: "i < j" by simp_all
  from Suc.prems(1) le have "search r s (Suc i) = None"
    by (simp add: search.simps[of r s i] split: option.splits)
  moreover from Suc.hyps(2) lt have "n = j - Suc i" by simp
  ultimately show ?case using Suc.hyps(1) lt Suc.prems(3) by simp
qed

lemma matchAll_Nil_every:
  assumes "matchAll datePattern s = []"
  shows "dateMatchAt s j = None"
proof (cases "j \<le> length s")
  case True
  from assms have "search datePattern s 0 = None"
    by (simp add: matchAll_def matchAllFrom.simps[of datePattern s 0]
        split: option.splits prod.splits)
  from search_None_every[OF this _ True] show ?thesis by (simp add: matchAt_datePattern)
next
  case False
  then show ?thesis by (simp add: dateMatchAt_def)
qed

lemma run_drop: "run P (drop i s) k = run P s (i + k)"
  by (simp add: run_def add.commute)

lemma dateMatchAt_drop: "(dateMatchAt (drop i s) j = None) = (dateMatchAt s (i + j) = None)"
proof (cases "i \<le> length s")
  case False
  then show ?thesis by (simp add: dateMatchAt_def)
next
  case True
  let ?t = "drop i s"
  have nth: "\<And>k. ?t ! k = s ! (i + k)" using True by simp
  define a where "a = (if Suc j < length ?t \<and> isDigit (?t ! Suc j) then j + 2 else j + 1)"
  define b where "b = a + run isSpace ?t a"
  define c where "c = b + run isMonthLetter ?t b"
  define dd where "dd = c + run isSpace ?t c"
  have a': "(if Suc (i + j) < length s \<and> isDigit (s ! Suc (i + j)) then i + j + 2 else i + j + 1)
      = i + a"
    using True by (auto simp: a_def nth)
  have b': "i + a + run isSpace s (i + a) = i + b" by (simp add: b_def run_drop)
  have c': "i + b + run isMonthLetter s (i + b) = i + c" by (simp add: c_def run_drop)
  have d': "i + c + run isSpace s (i + c) = i + dd" by (simp add: dd_def run_drop)
  have L: "(dateMatchAt ?t j = None)
      = (\<not> (j < length ?t \<and> isDigit (?t ! j) \<and> a < b \<and> b < c \<and> c < dd \<and> dd + 4 \<le> length ?t
            \<and> isDigit (?t ! dd) \<and> isDigit (?t ! (dd + 1)) \<and> isDigit (?t ! (dd + 2))
            \<and> isDigit (?t ! (dd + 3))))"
    unfolding dateMatchAt_def Let_def a_def[symmetric] b_def[symmetric] c_def[symmetric]
      dd_def[symmetric]
    by (auto simp del: nth_drop)
  have R: "(dateMatchAt s (i + j) = None)
      = (\<not> (i + j < length s \<and> isDigit (s ! (i + j)) \<and> i + a < i + b \<and> i + b < i + c
            \<and> i + c < i + dd \<and> i + dd + 4 \<le> length s
            \<and> isDigit (s ! (i + dd)) \<and> isDigit (s ! (i + dd + 1)) \<and> isDigit (s ! (i + dd + 2))
            \<and> isDigit (s ! (i + dd + 3))))"
    unfolding dateMatchAt_def Let_def a' b' c' d'
    by (auto simp del: nth_drop)
  have idx: "i + j < length s \<longleftrightarrow> j < length ?t" "i + dd + 4 \<le> length s \<longleftrightarrow> dd + 4 \<le> length ?t"
    using True by (simp_all, arith+)
  have ord: "i + a < i + b \<longleftrightarrow> a < b" "i + b < i + c \<longleftrightarrow> b < c" "i + c < i + dd \<longleftrightarrow> c < dd"
    by simp_all
  have n4: "s ! (i + dd + 1) = ?t ! (dd + 1)" "s ! (i + dd + 2) = ?t ! (dd + 2)"
    "s ! (i + dd + 3) = ?t ! (dd + 3)" "s ! (i + dd) = ?t ! dd" "s ! (i + j) = ?t ! j"
    by (simp_all only: nth add.assoc)
  show ?thesis unfolding L R idx ord n4 by (rule refl)
qed

lemma dateMatchAt_behind:
  "(dateMatchAt (xs @ ys) (length xs + j) = None) = (dateMatchAt ys j = None)"
  using dateMatchAt_drop[of "length xs" "xs @ ys" j] by simp

lemma run_map:
  assumes "\<And>x. P (f x) = P x"
  shows "run P (map f s) k = run P s k"
proof -
  have "P \<circ> f = P" using assms by (simp add: fun_eq_iff)
  then show ?thesis by (simp add: run_def drop_map takeWhile_map)
qed

lemma isSpace_lowerUnit: "isSpace (lowerUnit x) = isSpace x"
  by (auto simp: isSpace_def lowerUnit_def)

lemma isMonthLetter_lowerUnit_eq: "isMonthLetter (lowerUnit x) = isMonthLetter x"
  by (auto simp: isMonthLetter_def lowerUnit_def)

lemma dateMatchAt_toLowerCase:
  "(dateMatchAt (toLowerCase s) j = None) = (dateMatchAt s j = None)"
proof -
  let ?t = "toLowerCase s"
  have len: "length ?t = length s" by (simp add: toLowerCase_def)
  have dig: "\<And>k. k < length s \<Longrightarrow> isDigit (?t ! k) = isDigit (s ! k)"
    by (simp add: toLowerCase_def isDigit_lowerUnit)
  have rs: "\<And>k. run isSpace ?t k = run isSpace s k"
    unfolding toLowerCase_def by (rule run_map) (rule isSpace_lowerUnit)
  have rl: "\<And>k. run isMonthLetter ?t k = run isMonthLetter s k"
    unfolding toLowerCase_def by (rule run_map) (rule isMonthLetter_lowerUnit_eq)
  define a where "a = (if Suc j < length s \<and> isDigit (s ! Suc j) then j + 2 else j + 1)"
  define b where "b = a + run isSpace s a"
  define c where "c = b + run isMonthLetter s b"
  define dd where "dd = c + run isSpace s c"
  have a': "(if Suc j < length s \<and> isDigit (?t ! Suc j) then j + 2 else j + 1) = a"
    using dig[of "Suc j"] by (auto simp: a_def)
  have L: "(dateMatchAt s j = None)
      = (\<not> (j < length s \<and> isDigit (s ! j) \<and> a < b \<and> b < c \<and> c < dd \<and> dd + 4 \<le> length s
            \<and> isDigit (s ! dd) \<and> isDigit (s ! (dd + 1)) \<and> isDigit (s ! (dd + 2))
            \<and> isDigit (s ! (dd + 3))))"
    unfolding dateMatchAt_def Let_def a_def[symmetric] b_def[symmetric] c_def[symmetric]
      dd_def[symmetric]
    by auto
  have R: "(dateMatchAt ?t j = None)
      = (\<not> (j < length s \<and> isDigit (?t ! j) \<and> a < b \<and> b < c \<and> c < dd \<and> dd + 4 \<le> length s
            \<and> isDigit (?t ! dd) \<and> isDigit (?t ! (dd + 1)) \<and> isDigit (?t ! (dd + 2))
            \<and> isDigit (?t ! (dd + 3))))"
    unfolding dateMatchAt_def Let_def len a' rs rl b_def[symmetric] c_def[symmetric]
      dd_def[symmetric]
    by auto
  show ?thesis unfolding L R
    using dig[of j] dig[of dd] dig[of "dd + 1"] dig[of "dd + 2"] dig[of "dd + 3"] by auto
qed

lemma run_append:
  assumes "k + run P t k < length t"
  shows "run P (t @ u) k = run P t k"
proof -
  from assms have k: "k \<le> length t" by simp
  from assms have n: "length (takeWhile P (drop k t)) < length (drop k t)"
    by (simp add: run_def)
  then have "\<not> P (drop k t ! length (takeWhile P (drop k t)))" by (rule nth_length_takeWhile)
  moreover from n have "drop k t ! length (takeWhile P (drop k t)) \<in> set (drop k t)"
    by (rule nth_mem)
  ultimately obtain x where "x \<in> set (drop k t)" "\<not> P x" by blast
  then have "takeWhile P (drop k t @ u) = takeWhile P (drop k t)" by (rule takeWhile_append1)
  with k show ?thesis by (simp add: run_def)
qed

lemma dateMatchAt_append:
  assumes "dateMatchAt t j = Some x"
  shows "dateMatchAt (t @ u) j = Some x"
proof -
  define a where "a = (if Suc j < length t \<and> isDigit (t ! Suc j) then j + 2 else j + 1)"
  define b where "b = a + run isSpace t a"
  define c where "c = b + run isMonthLetter t b"
  define dd where "dd = c + run isSpace t c"
  from assms have first: "j < length t \<and> isDigit (t ! j)"
    by (auto simp: dateMatchAt_def split: if_splits)
  from assms first have ok: "a < b \<and> b < c \<and> c < dd \<and> dd + 4 \<le> length t
      \<and> isDigit (t ! dd) \<and> isDigit (t ! (dd + 1)) \<and> isDigit (t ! (dd + 2)) \<and> isDigit (t ! (dd + 3))"
    and x: "x = (j, dd + 4, [(j, a), (b, c), (dd, dd + 4)])"
    unfolding dateMatchAt_def a_def b_def c_def dd_def Let_def
    by (auto split: if_splits)
  from ok have "0 < run isSpace t a" by (simp add: b_def)
  then have alt: "a < length t" by (simp add: run_pos)
  have ja: "Suc j \<le> a" by (simp add: a_def)
  with alt have sj: "Suc j < length t \<or> (Suc j = a \<and> a < length t)" by arith
  have a': "(if Suc j < length (t @ u) \<and> isDigit ((t @ u) ! Suc j) then j + 2 else j + 1) = a"
    using alt ja by (auto simp: a_def nth_append)
  have b': "a + run isSpace (t @ u) a = b"
    unfolding b_def using ok by (subst run_append) (simp_all add: b_def)
  have c': "b + run isMonthLetter (t @ u) b = c"
    unfolding c_def using ok by (subst run_append) (simp_all add: c_def)
  have d': "c + run isSpace (t @ u) c = dd"
    unfolding dd_def using ok by (subst run_append) (simp_all add: dd_def)
  show ?thesis
    unfolding dateMatchAt_def Let_def a' b' c' d'
    using first ok x by (simp add: nth_append)
qed

lemma trimEnd_rest: "\<exists>sp. s = trimEnd s @ sp"
proof -
  have "rev (dropWhile isSpace (rev s)) @ rev (takeWhile isSpace (rev s))
      = rev (takeWhile isSpace (rev s) @ dropWhile isSpace (rev s))"
    by (simp only: rev_append)
  also have "\<dots> = rev (rev s)" by (simp only: takeWhile_dropWhile_id)
  finally have "s = trimEnd s @ rev (takeWhile isSpace (rev s))"
    by (simp only: trimEnd_def rev_rev_ident)
  then show ?thesis ..
qed

lemma no_match_normalized:
  assumes "matchAll datePattern post = []"
  shows "dateMatchAt (trimEnd (toLowerCase post)) j = None"
proof (cases "dateMatchAt (trimEnd (toLowerCase post)) j")
  case None
  then show ?thesis .
next
  case (Some x)
  from trimEnd_rest obtain sp where sp: "toLowerCase post = trimEnd (toLowerCase post) @ sp" ..
  from dateMatchAt_append[OF Some, of sp] sp
  have "dateMatchAt (toLowerCase post) j = Some x" by simp
  then have "dateMatchAt post j \<noteq> None" using dateMatchAt_toLowerCase[of post j] by simp
  with matchAll_Nil_every[OF assms, of j] show ?thesis by simp
qed

lemma trimEnd_append_rest:
  assumes "ys \<noteq> []" and "\<not> isSpace (last ys)"
  shows "trimEnd (ys @ zs) = ys @ trimEnd zs"
proof (cases "\<forall>z \<in> set zs. isSpace z")
  case True
  then have "dropWhile isSpace (rev zs) = []" by simp
  moreover from True have "dropWhile isSpace (rev zs @ rev ys) = dropWhile isSpace (rev ys)"
    by (intro dropWhile_append2) simp
  moreover have "dropWhile isSpace (rev ys) = rev ys"
    using assms by (cases ys rule: rev_cases) auto
  ultimately show ?thesis by (simp add: trimEnd_def)
next
  case False
  then obtain z where "z \<in> set (rev zs)" "\<not> isSpace z" by auto
  then have "dropWhile isSpace (rev zs @ rev ys) = dropWhile isSpace (rev zs) @ rev ys"
    by (rule dropWhile_append1)
  then show ?thesis by (simp add: trimEnd_def)
qed

lemma dateOfMatch_triple:
  assumes t: "tripleText d w1 m w2 y"
  shows "dateOfMatch tz (pre @ d @ w1 @ m @ w2 @ y @ post)
           (length pre, length (pre @ d @ w1 @ m @ w2 @ y),
             [(length pre, length pre + length d),
              (length pre + length d + length w1, length pre + length d + length w1 + length m),
              (length pre + length d + length w1 + length m + length w2,
               length (pre @ d @ w1 @ m @ w2 @ y))])
         = (case monthMap (toLowerCase m) of
              Some (Month k) \<Rightarrow> Some (newDateYMD tz (digitsValue y) (Some k) (digitsValue d))
            | Some Inherited \<Rightarrow> Some InvalidDate
            | None \<Rightarrow> None)"
proof -
  let ?n = "pre @ d @ w1 @ m @ w2 @ y @ post"
  let ?M = "(length pre, length (pre @ d @ w1 @ m @ w2 @ y),
             [(length pre, length pre + length d),
              (length pre + length d + length w1, length pre + length d + length w1 + length m),
              (length pre + length d + length w1 + length m + length w2,
               length (pre @ d @ w1 @ m @ w2 @ y))])"
  from t have d: "d \<noteq> []" "list_all isDigit d" and y: "y \<noteq> []" "list_all isDigit y"
    by (auto simp: tripleText_def)
  have g1: "group ?n ?M 1 = d" by (simp add: group_def slice_def)
  have g2: "group ?n ?M 2 = m" by (simp add: group_def slice_def)
  have g3: "group ?n ?M 3 = y" by (simp add: group_def slice_def numeral_3_eq_3)
  show ?thesis
    unfolding dateOfMatch_def g1 g2 g3 Let_def
    by (simp add: parseInt_digits[OF d] parseInt_digits[OF y] newDateYMD_def
        split: option.splits monthEntry.splits)
qed

text \<open>
  Claim C8 (corrected). The claim: in every text that holds two or more full triples
  with recognized months, the last of them gives the date. The code takes the last
  match of the pattern, whatever its word is: here the last match is \<open>20 stand 2000\<close>,
  whose word is no month, and the result is \<open>null\<close> although two full triples precede it.
\<close>

theorem parseItalianDate_last_match_counterexample:
  "parseItalianDate 3600000 (str ''31 ottobre 2025 - 2 novembre 2025, 20 stand 2000 posti'') = None"
  by code_simp

text \<open>
  What holds. Take any text and the last place where the pattern matches in it: a
  triple (a day of one or two digits that no digit precedes, white space, a word, white
  space, four digits) with no match of the pattern in what follows it. The result is
  read from that triple alone, whatever comes before it, earlier triples included: the
  date of its day, month and year when the word is one of the twelve month names (in
  any case), \<open>null\<close> when the word is no key of the month table, and an invalid date
  for the one other key the table inherits (\<open>constructor\<close>).

  What follows the triple is taken from the covered code units, where the embedding of
  \<open>toLowerCase\<close> is exact, so that it has no match in the source either (a Kelvin sign
  there would be lower-cased to \<open>k\<close> and could form a word of the pattern). What
  precedes the triple is any text: lower-casing never yields a digit, and the triple is
  matched whatever the matches before it are.
\<close>

theorem parseItalianDate_last_triple:
  assumes t: "tripleText d w1 m w2 y"
    and pre: "pre = [] \<or> \<not> isDigit (last pre)"
    and post: "matchAll datePattern post = []"
    and exact: "list_all covered post"
  shows "parseItalianDate tz (pre @ d @ w1 @ m @ w2 @ y @ post)
           = (case monthMap (toLowerCase m) of
                Some (Month k) \<Rightarrow> Some (newDateYMD tz (digitsValue y) (Some k) (digitsValue d))
              | Some Inherited \<Rightarrow> Some InvalidDate
              | None \<Rightarrow> None)"
proof -
  let ?pre = "trimStart (toLowerCase pre)"
  let ?m = "toLowerCase m"
  let ?post = "trimEnd (toLowerCase post)"
  from t have d: "d \<noteq> []" "list_all isDigit d" and w1: "list_all isSpace w1"
    and w2: "list_all isSpace w2" and y: "length y = 4" "list_all isDigit y"
    and m: "list_all isMonthLetter m" "m \<noteq> []"
    by (auto simp: tripleText_def)
  from d have hd: "\<not> isSpace (hd d)" using digit_not_space by (cases d) auto
  from y have ly: "y \<noteq> []" "\<not> isSpace (last y)"
    using digit_not_space by (cases y rule: rev_cases; auto)+
  have low: "toLowerCase (pre @ d @ w1 @ m @ w2 @ y @ post)
      = toLowerCase pre @ d @ w1 @ ?m @ w2 @ y @ toLowerCase post"
    by (simp add: toLowerCase_append toLowerCase_digits[OF d(2)] toLowerCase_digits[OF y(2)]
        toLowerCase_spaces[OF w1] toLowerCase_spaces[OF w2])
  have s1: "trimStart (toLowerCase pre @ (d @ w1 @ ?m @ w2 @ y @ toLowerCase post))
      = ?pre @ (d @ w1 @ ?m @ w2 @ y @ toLowerCase post)"
    using d(1) hd by (intro trimStart_append) auto
  have s2: "trimEnd ((?pre @ d @ w1 @ ?m @ w2 @ y) @ toLowerCase post)
      = (?pre @ d @ w1 @ ?m @ w2 @ y) @ ?post"
    using ly by (intro trimEnd_append_rest) auto
  from s1 s2 have norm: "trim (toLowerCase (pre @ d @ w1 @ m @ w2 @ y @ post))
      = ?pre @ d @ w1 @ ?m @ w2 @ y @ ?post"
    by (simp add: trim_def low)
  have t': "tripleText d w1 ?m w2 y"
    using t toLowerCase_letters[OF m(1)] m(2) by (simp add: tripleText_def toLowerCase_def)
  have pre': "?pre = [] \<or> \<not> isDigit (last ?pre)"
  proof (cases "?pre = []")
    case True
    then show ?thesis by simp
  next
    case False
    then have ne: "pre \<noteq> []" by (auto simp: trimStart_def toLowerCase_def)
    from trimStart_last[OF False] have "last ?pre = last (toLowerCase pre)" .
    also have "\<dots> = lowerUnit (last pre)" using ne by (simp add: toLowerCase_def last_map)
    finally have "isDigit (last ?pre) = isDigit (last pre)" by (simp add: isDigit_lowerUnit)
    with pre ne show ?thesis by simp
  qed
  have after: "\<And>j. length (?pre @ d @ w1 @ ?m @ w2 @ y) \<le> j \<Longrightarrow>
      matchAt datePattern (?pre @ d @ w1 @ ?m @ w2 @ y @ ?post) j = None"
  proof -
    fix j assume j: "length (?pre @ d @ w1 @ ?m @ w2 @ y) \<le> j"
    let ?x = "?pre @ d @ w1 @ ?m @ w2 @ y"
    from j have "j = length ?x + (j - length ?x)" by simp
    then have "dateMatchAt (?x @ ?post) j = dateMatchAt (?x @ ?post) (length ?x + (j - length ?x))"
      by simp
    moreover have "dateMatchAt (?x @ ?post) (length ?x + (j - length ?x)) = None"
      by (simp only: dateMatchAt_behind no_match_normalized[OF post])
    ultimately show "matchAt datePattern (?pre @ d @ w1 @ ?m @ w2 @ y @ ?post) j = None"
      by (simp add: matchAt_datePattern)
  qed
  from last_match_is_final_triple[OF t' pre' _ after, of 0]
  have ne: "matchAll datePattern (?pre @ d @ w1 @ ?m @ w2 @ y @ ?post) \<noteq> []"
    and lst: "last (matchAll datePattern (?pre @ d @ w1 @ ?m @ w2 @ y @ ?post))
       = (length ?pre, length (?pre @ d @ w1 @ ?m @ w2 @ y),
             [(length ?pre, length ?pre + length d),
              (length ?pre + length d + length w1, length ?pre + length d + length w1 + length ?m),
              (length ?pre + length d + length w1 + length ?m + length w2,
               length (?pre @ d @ w1 @ ?m @ w2 @ y))])"
    by (simp_all add: matchAll_def)
  show ?thesis
    unfolding parseItalianDate_def Let_def norm
    using ne by (simp only: lst if_False dateOfMatch_triple[OF t'] toLowerCase_idem)
qed

theorem parseItalianDate_last_triple_witness:
  "parseItalianDate 3600000 (str ''31 ottobre 2025 - 2 Novembre 2025 a Imola, tel. 0542 123456'')
     = Some (Date 1762038000000)
   \<and> parseItalianDate 3600000 (str ''7 novembre 2025 ore 20 circa 2030 posti'') = None
   \<and> parseItalianDate 3600000 (str ''1 constructor 2025'') = Some InvalidDate"
proof -
  have t1: "tripleText (str ''2'') (str '' '') (str ''Novembre'') (str '' '') (str ''2025'')"
    by code_simp
  have m1: "monthMap (toLowerCase (str ''Novembre'')) = Some (Month 10)"
    by code_simp
  have pre1: "str ''31 ottobre 2025 - '' = [] \<or> \<not> isDigit (last (str ''31 ottobre 2025 - ''))"
    by code_simp
  have post1: "matchAll datePattern (str '' a Imola, tel. 0542 123456'') = []"
    by code_simp
  have w1: "str ''31 ottobre 2025 - '' @ str ''2'' @ str '' '' @ str ''Novembre'' @ str '' ''
      @ str ''2025'' @ str '' a Imola, tel. 0542 123456''
      = str ''31 ottobre 2025 - 2 Novembre 2025 a Imola, tel. 0542 123456''"
    by (simp add: str_def)
  have v1: "newDateYMD 3600000 (digitsValue (str ''2025'')) (Some 10) (digitsValue (str ''2''))
      = Date 1762038000000"
    by code_simp
  have c1: "list_all covered (str '' a Imola, tel. 0542 123456'')"
    by code_simp
  from parseItalianDate_last_triple[OF t1 pre1 post1 c1, of 3600000]
  have a: "parseItalianDate 3600000
      (str ''31 ottobre 2025 - 2 Novembre 2025 a Imola, tel. 0542 123456'')
     = Some (Date 1762038000000)"
    by (simp only: w1 m1 v1 option.case monthEntry.case)
  have t2: "tripleText (str ''20'') (str '' '') (str ''circa'') (str '' '') (str ''2030'')"
    by code_simp
  have m2: "monthMap (toLowerCase (str ''circa'')) = None"
    by code_simp
  have pre2: "str ''7 novembre 2025 ore '' = [] \<or> \<not> isDigit (last (str ''7 novembre 2025 ore ''))"
    by code_simp
  have post2: "matchAll datePattern (str '' posti'') = []"
    by code_simp
  have w2: "str ''7 novembre 2025 ore '' @ str ''20'' @ str '' '' @ str ''circa'' @ str '' ''
      @ str ''2030'' @ str '' posti'' = str ''7 novembre 2025 ore 20 circa 2030 posti''"
    by (simp add: str_def)
  have c2: "list_all covered (str '' posti'')"
    by code_simp
  from parseItalianDate_last_triple[OF t2 pre2 post2 c2, of 3600000]
  have b: "parseItalianDate 3600000 (str ''7 novembre 2025 ore 20 circa 2030 posti'') = None"
    by (simp only: w2 m2 option.case)
  have t3: "tripleText (str ''1'') (str '' '') (str ''constructor'') (str '' '') (str ''2025'')"
    by code_simp
  have m3: "monthMap (toLowerCase (str ''constructor'')) = Some Inherited"
    by code_simp
  have pre3: "([]::jsstring) = [] \<or> \<not> isDigit (last [])"
    by simp
  have post3: "matchAll datePattern [] = []"
    by code_simp
  have w3: "[] @ str ''1'' @ str '' '' @ str ''constructor'' @ str '' '' @ str ''2025'' @ []
      = str ''1 constructor 2025''"
    by (simp add: str_def)
  have c3: "list_all covered []"
    by simp
  from parseItalianDate_last_triple[OF t3 pre3 post3 c3, of 3600000]
  have c: "parseItalianDate 3600000 (str ''1 constructor 2025'') = Some InvalidDate"
    by (simp only: w3 m3 option.case monthEntry.case)
  from a b c show ?thesis by blast
qed

section \<open>The slug of the upload\<close>






















section \<open>Global replacement, by what a match at an index looks like\<close>






























end
